theory Spec2Isabelle
  imports Main "HOL-Library.Sublist"
begin

section \<open>Exceptions\<close>

text \<open>
  The three exception classes of \<open>concurrent.hpp\<close>, and \<open>std::system_error\<close>, which
  \<open>std::thread::join\<close> throws on a thread that is not joinable. The last value stands
  for the behaviour C++ leaves undefined: dereferencing a null \<open>shared_ptr\<close>, an invalid
  or past-the-end iterator, or an empty \<open>optional\<close>.
\<close>

datatype error =
    close_channel
  | channel_already_closed
  | receiver_already_retrived
  | system_error
  | undefined_behavior

section \<open>\<open>std::forward_list\<close> with stable iterators\<close>

text \<open>
  A forward list is a sequence of nodes. An iterator names a node (or is past the end, or
  is the singular value of a default-constructed iterator) and stays valid while its node
  is in the list, whatever happens to the other nodes; so every node has an identity, taken
  from the count of nodes allocated so far.
\<close>

type_synonym node = nat

datatype iter = At node | Past_end | Singular

record 'a forward_list =
  nodes :: "(node \<times> 'a) list"
  allocated :: nat

text \<open>\<open>std::forward_list<X>{x}\<close>: the list of the one element \<open>x\<close>.\<close>

definition fl_init :: "'a \<Rightarrow> 'a forward_list" where
  "fl_init x = \<lparr>nodes = [(0, x)], allocated = 1\<rparr>"

text \<open>\<open>begin()\<close>\<close>

definition fl_begin :: "'a forward_list \<Rightarrow> iter" where
  "fl_begin l = (case nodes l of [] \<Rightarrow> Past_end | (n, _) # _ \<Rightarrow> At n)"

text \<open>The position after node \<open>n\<close>; \<open>None\<close> when \<open>n\<close> is not a node of the list.\<close>

fun successor :: "node \<Rightarrow> (node \<times> 'a) list \<Rightarrow> iter option" where
  "successor n [] = None"
| "successor n ((m, x) # ns) =
     (if m = n then Some (case ns of [] \<Rightarrow> Past_end | (k, _) # _ \<Rightarrow> At k)
      else successor n ns)"

text \<open>\<open>++it\<close>\<close>

definition incr :: "iter \<Rightarrow> 'a forward_list \<Rightarrow> error + iter" where
  "incr it l =
     (case it of
        At n \<Rightarrow>
          (case successor n (nodes l) of
             None \<Rightarrow> Inl undefined_behavior
           | Some it' \<Rightarrow> Inr it')
      | _ \<Rightarrow> Inl undefined_behavior)"

text \<open>Linking a new node behind node \<open>n\<close>; \<open>None\<close> when \<open>n\<close> is not a node of the list.\<close>

fun link_after :: "node \<Rightarrow> node \<times> 'a \<Rightarrow> (node \<times> 'a) list \<Rightarrow> (node \<times> 'a) list option" where
  "link_after n new [] = None"
| "link_after n new ((m, x) # ns) =
     (if m = n then Some ((m, x) # new # ns)
      else (case link_after n new ns of
              None \<Rightarrow> None
            | Some ns' \<Rightarrow> Some ((m, x) # ns')))"

text \<open>\<open>insert_after(it, x)\<close>\<close>

definition insert_after :: "iter \<Rightarrow> 'a \<Rightarrow> 'a forward_list \<Rightarrow> error + 'a forward_list" where
  "insert_after it x l =
     (case it of
        At n \<Rightarrow>
          (case link_after n (allocated l, x) (nodes l) of
             None \<Rightarrow> Inl undefined_behavior
           | Some ns \<Rightarrow> Inr \<lparr>nodes = ns, allocated = Suc (allocated l)\<rparr>)
      | _ \<Rightarrow> Inl undefined_behavior)"

text \<open>\<open>pop_front()\<close>\<close>

definition pop_front :: "'a forward_list \<Rightarrow> error + 'a forward_list" where
  "pop_front l =
     (case nodes l of
        [] \<Rightarrow> Inl undefined_behavior
      | _ # ns \<Rightarrow> Inr (l\<lparr>nodes := ns\<rparr>))"

text \<open>\<open>*it\<close>\<close>

definition deref :: "iter \<Rightarrow> 'a forward_list \<Rightarrow> error + 'a" where
  "deref it l =
     (case it of
        At n \<Rightarrow>
          (case map_of (nodes l) n of
             None \<Rightarrow> Inl undefined_behavior
           | Some x \<Rightarrow> Inr x)
      | _ \<Rightarrow> Inl undefined_behavior)"

section \<open>The channel state\<close>

text \<open>
  \<open>struct channel_state\<close>. The mutex is modelled by atomicity: each function below is
  one critical section of the source, run as one step. The condition variable is modelled
  by the notification a step issues after it has released the mutex.
\<close>

record 'a channel_state =
  has_receiver_v :: bool
  is_closed_v :: bool
  data :: "'a option forward_list"
  last_it :: iter

datatype notification = no_notification | notify_one | notify_all

text \<open>
  The constructor \<open>channel_state()\<close> initialises \<open>is_closed_v\<close>, \<open>data\<close> and
  \<open>last\<close>. It has no initialiser for \<open>has_receiver_v\<close> (the struct has a user-provided
  default constructor, so \<open>make_shared\<close> does not zero the member either): the value the
  member holds is the parameter \<open>indeterminate\<close>.
\<close>

definition channel_state_ctor :: "bool \<Rightarrow> 'a channel_state" where
  "channel_state_ctor indeterminate =
     (let d = fl_init None in
      \<lparr>has_receiver_v = indeterminate,
       is_closed_v = False,
       data = d,
       last_it = fl_begin d\<rparr>)"

text \<open>
  \<open>channel::push\<close>; the \<open>const T &\<close> and the \<open>T &&\<close> overload have the same body but
  for the \<open>std::move\<close>.
\<close>

definition channel_push ::
  "'a \<Rightarrow> 'a channel_state \<Rightarrow> error + 'a channel_state \<times> notification" where
  "channel_push x s =
     (if \<not> has_receiver_v s then Inr (s, no_notification)
      else
        (case insert_after (last_it s) (Some x) (data s) of
           Inl e \<Rightarrow> Inl e
         | Inr d \<Rightarrow>
             (case incr (last_it s) d of
                Inl e \<Rightarrow> Inl e
              | Inr l \<Rightarrow> Inr (s\<lparr>data := d, last_it := l\<rparr>, notify_one))))"

text \<open>\<open>channel::close\<close>\<close>

definition channel_close :: "'a channel_state \<Rightarrow> 'a channel_state \<times> notification" where
  "channel_close s = (s\<lparr>is_closed_v := True\<rparr>, notify_all)"

text \<open>
  \<open>channel_closer::close\<close>. The closer holds references to \<open>is_closed_v\<close>, the mutex and
  the condition variable of the state its \<open>reference_counter\<close> keeps alive.
\<close>

definition channel_closer_close :: "'a channel_state \<Rightarrow> 'a channel_state \<times> notification" where
  "channel_closer_close s = (s\<lparr>is_closed_v := True\<rparr>, notify_all)"

text \<open>\<open>sender::push\<close>, both overloads, on the state the sender points to.\<close>

definition sender_push ::
  "'a \<Rightarrow> 'a channel_state \<Rightarrow> error + 'a channel_state \<times> notification" where
  "sender_push x s =
     (if \<not> has_receiver_v s then Inr (s, no_notification)
      else
        (case insert_after (last_it s) (Some x) (data s) of
           Inl e \<Rightarrow> Inl e
         | Inr d \<Rightarrow>
             (case incr (last_it s) d of
                Inl e \<Rightarrow> Inl e
              | Inr l \<Rightarrow> Inr (s\<lparr>data := d, last_it := l\<rparr>, notify_one))))"

text \<open>\<open>sender::close\<close>\<close>

definition sender_close :: "'a channel_state \<Rightarrow> 'a channel_state \<times> notification" where
  "sender_close s = (s\<lparr>is_closed_v := True\<rparr>, notify_all)"

text \<open>The constructor \<open>sender::sender(state)\<close>, reached through \<open>channel::get_sender\<close>.\<close>

definition sender_ctor :: "'a channel_state \<Rightarrow> error + 'a channel_state" where
  "sender_ctor s = (if is_closed_v s then Inl channel_already_closed else Inr s)"

text \<open>
  The constructor \<open>receiver::receiver(state)\<close>, reached through \<open>channel::get_receiver\<close>,
  has two critical sections. The member initialiser locks the mutex for the time it copies
  \<open>state->last\<close> into the receiver's iterator:
\<close>

definition receiver_snapshot :: "'a channel_state \<Rightarrow> iter" where
  "receiver_snapshot s = last_it s"

text \<open>Then the body locks the mutex again, checks the two flags and sets the first:\<close>

definition receiver_register ::
  "iter \<Rightarrow> 'a channel_state \<Rightarrow> error + 'a channel_state \<times> iter" where
  "receiver_register iterator s =
     (if has_receiver_v s then Inl receiver_already_retrived
      else if is_closed_v s then Inl channel_already_closed
      else Inr (s\<lparr>has_receiver_v := True\<rparr>, iterator))"

text \<open>
  The constructor with nothing between its two critical sections. What other threads do
  between them makes no difference (lemma \<open>receiver_ctor_interleaved\<close>), so the runs below
  take the constructor as one step.
\<close>

definition receiver_ctor :: "'a channel_state \<Rightarrow> error + 'a channel_state \<times> iter" where
  "receiver_ctor s = receiver_register (receiver_snapshot s) s"

text \<open>
  The predicate \<open>receiver::next\<close> waits on:
  \<open>++next != state->data.end() || state->is_closed_v\<close>, with \<open>next\<close> a copy of the
  receiver's iterator.
\<close>

definition wait_pred :: "iter \<Rightarrow> 'a channel_state \<Rightarrow> error + bool" where
  "wait_pred iterator s =
     (case incr iterator (data s) of
        Inl e \<Rightarrow> Inl e
      | Inr nxt \<Rightarrow> Inr (nxt \<noteq> Past_end \<or> is_closed_v s))"

text \<open>
  \<open>receiver::next\<close>, run in a state \<open>s\<close> with the receiver's iterator: \<open>Inr None\<close> when
  the predicate is false, so that the caller stays blocked in this state; \<open>Inl e\<close> when
  the call throws; otherwise the value returned, the receiver's new iterator and the new
  state.
\<close>

definition receiver_next ::
  "iter \<Rightarrow> 'a channel_state \<Rightarrow> error + ('a \<times> iter \<times> 'a channel_state) option" where
  "receiver_next iterator s =
     (case wait_pred iterator s of
        Inl e \<Rightarrow> Inl e
      | Inr False \<Rightarrow> Inr None
      | Inr True \<Rightarrow>
          if is_closed_v s then Inl close_channel
          else
            (case incr iterator (data s) of
               Inl e \<Rightarrow> Inl e
             | Inr iterator' \<Rightarrow>
                 (case pop_front (data s) of
                    Inl e \<Rightarrow> Inl e
                  | Inr d \<Rightarrow>
                      (case deref iterator' d of
                         Inl e \<Rightarrow> Inl e
                       | Inr None \<Rightarrow> Inl undefined_behavior
                       | Inr (Some v) \<Rightarrow> Inr (Some (v, iterator', s\<lparr>data := d\<rparr>))))))"

text \<open>
  \<open>receiver::operator*\<close>, the peek: the result, with the receiver's iterator and the state
  as the call leaves them.
\<close>

definition receiver_peek ::
  "iter \<Rightarrow> 'a channel_state \<Rightarrow> (error + 'a option) \<times> iter \<times> 'a channel_state" where
  "receiver_peek iterator s = (deref iterator (data s), iterator, s)"

section \<open>Handles: shared ownership of the channel state\<close>

text \<open>
  \<open>std::shared_ptr<channel_state<T>>\<close>: null, or the address of a control block that holds
  the state and its use count. The heap hands out addresses in order.
\<close>

type_synonym address = nat

type_synonym shared_ptr = "address option"

record 'a control_block =
  object :: "'a channel_state"
  owners :: nat

record 'a heap =
  cells :: "address \<rightharpoonup> 'a control_block"
  next_address :: address

definition make_shared :: "'a channel_state \<Rightarrow> 'a heap \<Rightarrow> shared_ptr \<times> 'a heap" where
  "make_shared v h =
     (Some (next_address h),
      \<lparr>cells = (cells h)(next_address h \<mapsto> \<lparr>object = v, owners = 1\<rparr>),
       next_address = Suc (next_address h)\<rparr>)"

text \<open>\<open>use_count()\<close>: 0 for the null pointer, the count of the control block otherwise.\<close>

definition use_count :: "shared_ptr \<Rightarrow> 'a heap \<Rightarrow> nat" where
  "use_count p h =
     (case p of
        None \<Rightarrow> 0
      | Some a \<Rightarrow> (case cells h a of None \<Rightarrow> 0 | Some b \<Rightarrow> owners b))"

text \<open>Copying a pointer adds an owner.\<close>

definition copy_ptr :: "shared_ptr \<Rightarrow> 'a heap \<Rightarrow> 'a heap" where
  "copy_ptr p h =
     (case p of
        None \<Rightarrow> h
      | Some a \<Rightarrow>
          (case cells h a of
             None \<Rightarrow> h
           | Some b \<Rightarrow> h\<lparr>cells := (cells h)(a \<mapsto> b\<lparr>owners := Suc (owners b)\<rparr>)\<rparr>))"

text \<open>\<open>state->\<close>: the state behind a pointer.\<close>

definition load :: "shared_ptr \<Rightarrow> 'a heap \<Rightarrow> error + 'a channel_state" where
  "load p h =
     (case p of
        None \<Rightarrow> Inl undefined_behavior
      | Some a \<Rightarrow>
          (case cells h a of
             None \<Rightarrow> Inl undefined_behavior
           | Some b \<Rightarrow> Inr (object b)))"

text \<open>Writing the state behind a pointer back.\<close>

definition store :: "shared_ptr \<Rightarrow> 'a channel_state \<Rightarrow> 'a heap \<Rightarrow> 'a heap" where
  "store p v h =
     (case p of
        None \<Rightarrow> h
      | Some a \<Rightarrow>
          (case cells h a of
             None \<Rightarrow> h
           | Some b \<Rightarrow> h\<lparr>cells := (cells h)(a \<mapsto> b\<lparr>object := v\<rparr>)\<rparr>))"

record channel =
  channel_state_ptr :: shared_ptr

record sender =
  sender_state_ptr :: shared_ptr

record receiver =
  receiver_state_ptr :: shared_ptr
  iterator_v :: iter

record shared_receiver =
  receiver_v :: receiver

record channel_closer =
  reference_counter :: shared_ptr

text \<open>\<open>channel::channel()\<close>\<close>

definition channel_ctor :: "bool \<Rightarrow> 'a heap \<Rightarrow> channel \<times> 'a heap" where
  "channel_ctor indeterminate h =
     (case make_shared (channel_state_ctor indeterminate) h of
        (p, h') \<Rightarrow> (\<lparr>channel_state_ptr = p\<rparr>, h'))"

text \<open>
  \<open>channel::get_sender\<close>: the new sender copies the pointer, then its constructor body runs.
  When the body throws, the copy is destroyed again and the heap is as before.
\<close>

definition get_sender :: "channel \<Rightarrow> 'a heap \<Rightarrow> error + sender \<times> 'a heap" where
  "get_sender ch h =
     (case load (channel_state_ptr ch) h of
        Inl e \<Rightarrow> Inl e
      | Inr s \<Rightarrow>
          (case sender_ctor s of
             Inl e \<Rightarrow> Inl e
           | Inr s' \<Rightarrow>
               Inr (\<lparr>sender_state_ptr = channel_state_ptr ch\<rparr>,
                    copy_ptr (channel_state_ptr ch) (store (channel_state_ptr ch) s' h))))"

text \<open>\<open>channel::get_receiver\<close>\<close>

definition get_receiver :: "channel \<Rightarrow> 'a heap \<Rightarrow> error + receiver \<times> 'a heap" where
  "get_receiver ch h =
     (case load (channel_state_ptr ch) h of
        Inl e \<Rightarrow> Inl e
      | Inr s \<Rightarrow>
          (case receiver_ctor s of
             Inl e \<Rightarrow> Inl e
           | Inr (s', it) \<Rightarrow>
               Inr (\<lparr>receiver_state_ptr = channel_state_ptr ch, iterator_v = it\<rparr>,
                    copy_ptr (channel_state_ptr ch) (store (channel_state_ptr ch) s' h))))"

text \<open>
  \<open>channel::get_closer\<close>: the closer copies the pointer into \<open>reference_counter\<close> and binds
  its references to members of \<open>*state\<close>.
\<close>

definition get_closer :: "channel \<Rightarrow> 'a heap \<Rightarrow> error + channel_closer \<times> 'a heap" where
  "get_closer ch h =
     (case load (channel_state_ptr ch) h of
        Inl e \<Rightarrow> Inl e
      | Inr s \<Rightarrow>
          Inr (\<lparr>reference_counter = channel_state_ptr ch\<rparr>, copy_ptr (channel_state_ptr ch) h))"

text \<open>The default constructors \<open>sender()\<close> and \<open>receiver()\<close>.\<close>

definition sender_default :: sender where
  "sender_default = \<lparr>sender_state_ptr = None\<rparr>"

definition receiver_default :: receiver where
  "receiver_default = \<lparr>receiver_state_ptr = None, iterator_v = Singular\<rparr>"

text \<open>
  The member functions as called on a handle. Each returns, unless it throws, its result
  with the handle and the heap as the call leaves them.
\<close>

definition sender_avail :: "sender \<Rightarrow> 'a heap \<Rightarrow> error + bool \<times> sender \<times> 'a heap" where
  "sender_avail sn h = Inr (use_count (sender_state_ptr sn) h \<noteq> 0, sn, h)"

definition sender_push_call ::
  "sender \<Rightarrow> 'a \<Rightarrow> 'a heap \<Rightarrow> error + notification \<times> sender \<times> 'a heap" where
  "sender_push_call sn x h =
     (case load (sender_state_ptr sn) h of
        Inl e \<Rightarrow> Inl e
      | Inr s \<Rightarrow>
          (case sender_push x s of
             Inl e \<Rightarrow> Inl e
           | Inr (s', n) \<Rightarrow> Inr (n, sn, store (sender_state_ptr sn) s' h)))"

definition sender_close_call ::
  "sender \<Rightarrow> 'a heap \<Rightarrow> error + notification \<times> sender \<times> 'a heap" where
  "sender_close_call sn h =
     (case load (sender_state_ptr sn) h of
        Inl e \<Rightarrow> Inl e
      | Inr s \<Rightarrow>
          (case sender_close s of
             (s', n) \<Rightarrow> Inr (n, sn, store (sender_state_ptr sn) s' h)))"

definition receiver_avail :: "receiver \<Rightarrow> 'a heap \<Rightarrow> error + bool \<times> receiver \<times> 'a heap" where
  "receiver_avail rc h = Inr (use_count (receiver_state_ptr rc) h \<noteq> 0, rc, h)"

text \<open>\<open>receiver::next\<close> on a handle; the result \<open>None\<close> is the call still waiting.\<close>

definition receiver_next_call ::
  "receiver \<Rightarrow> 'a heap \<Rightarrow> error + 'a option \<times> receiver \<times> 'a heap" where
  "receiver_next_call rc h =
     (case load (receiver_state_ptr rc) h of
        Inl e \<Rightarrow> Inl e
      | Inr s \<Rightarrow>
          (case receiver_next (iterator_v rc) s of
             Inl e \<Rightarrow> Inl e
           | Inr None \<Rightarrow> Inr (None, rc, h)
           | Inr (Some (v, it, s')) \<Rightarrow>
               Inr (Some v, rc\<lparr>iterator_v := it\<rparr>, store (receiver_state_ptr rc) s' h)))"

definition receiver_peek_call ::
  "receiver \<Rightarrow> 'a heap \<Rightarrow> error + 'a option \<times> receiver \<times> 'a heap" where
  "receiver_peek_call rc h =
     (case load (receiver_state_ptr rc) h of
        Inl e \<Rightarrow> Inl e
      | Inr s \<Rightarrow>
          (case receiver_peek (iterator_v rc) s of
             (Inl e, _) \<Rightarrow> Inl e
           | (Inr r, it, s') \<Rightarrow>
               Inr (r, rc\<lparr>iterator_v := it\<rparr>, store (receiver_state_ptr rc) s' h)))"

text \<open>
  \<open>receiver::share\<close>: the receiver is moved into the shared wrapper, which leaves the
  pointer of the handle it was called on null.
\<close>

definition receiver_share ::
  "receiver \<Rightarrow> 'a heap \<Rightarrow> error + shared_receiver \<times> receiver \<times> 'a heap" where
  "receiver_share rc h = Inr (\<lparr>receiver_v = rc\<rparr>, rc\<lparr>receiver_state_ptr := None\<rparr>, h)"

definition channel_closer_close_call ::
  "channel_closer \<Rightarrow> 'a heap \<Rightarrow> error + notification \<times> 'a heap" where
  "channel_closer_close_call c h =
     (case load (reference_counter c) h of
        Inl e \<Rightarrow> Inl e
      | Inr s \<Rightarrow>
          (case channel_closer_close s of
             (s', n) \<Rightarrow> Inr (n, store (reference_counter c) s' h)))"

text \<open>The public member functions of the two handle classes, and where each is defined.\<close>

datatype 'a sender_op = S_avail | S_push 'a | S_close

datatype receiver_op = R_avail | R_next | R_peek | R_share

definition sender_op_defined :: "'a sender_op \<Rightarrow> sender \<Rightarrow> 'a heap \<Rightarrow> bool" where
  "sender_op_defined op sn h =
     (case op of
        S_avail \<Rightarrow> sender_avail sn h \<noteq> Inl undefined_behavior
      | S_push x \<Rightarrow> sender_push_call sn x h \<noteq> Inl undefined_behavior
      | S_close \<Rightarrow> sender_close_call sn h \<noteq> Inl undefined_behavior)"

definition receiver_op_defined :: "receiver_op \<Rightarrow> receiver \<Rightarrow> 'a heap \<Rightarrow> bool" where
  "receiver_op_defined op rc h =
     (case op of
        R_avail \<Rightarrow> receiver_avail rc h \<noteq> Inl undefined_behavior
      | R_next \<Rightarrow> receiver_next_call rc h \<noteq> Inl undefined_behavior
      | R_peek \<Rightarrow> receiver_peek_call rc h \<noteq> Inl undefined_behavior
      | R_share \<Rightarrow> receiver_share rc h \<noteq> Inl undefined_behavior)"

text \<open>\<open>channel::push\<close> and \<open>channel::close\<close> as called on a channel handle.\<close>

definition channel_push_call ::
  "channel \<Rightarrow> 'a \<Rightarrow> 'a heap \<Rightarrow> error + notification \<times> channel \<times> 'a heap" where
  "channel_push_call ch x h =
     (case load (channel_state_ptr ch) h of
        Inl e \<Rightarrow> Inl e
      | Inr s \<Rightarrow>
          (case channel_push x s of
             Inl e \<Rightarrow> Inl e
           | Inr (s', n) \<Rightarrow> Inr (n, ch, store (channel_state_ptr ch) s' h)))"

definition channel_close_call ::
  "channel \<Rightarrow> 'a heap \<Rightarrow> error + notification \<times> channel \<times> 'a heap" where
  "channel_close_call ch h =
     (case load (channel_state_ptr ch) h of
        Inl e \<Rightarrow> Inl e
      | Inr s \<Rightarrow>
          (case channel_close s of
             (s', n) \<Rightarrow> Inr (n, ch, store (channel_state_ptr ch) s' h)))"

text \<open>
  The calls a program makes on its handles, and the heap each leaves: the heap as it was
  when the call throws or is still waiting.
\<close>

datatype 'a call =
    Make_channel bool
  | Get_sender_of channel
  | Get_receiver_of channel
  | Get_closer_of channel
  | Push_on channel 'a
  | Close_on channel
  | Avail_of_sender sender
  | Push_through sender 'a
  | Close_through sender
  | Avail_of_receiver receiver
  | Next_of receiver
  | Peek_of receiver
  | Share_of receiver
  | Close_by channel_closer

definition heap_after :: "'a call \<Rightarrow> 'a heap \<Rightarrow> 'a heap" where
  "heap_after c h =
     (case c of
        Make_channel indeterminate \<Rightarrow> snd (channel_ctor indeterminate h)
      | Get_sender_of ch \<Rightarrow> (case get_sender ch h of Inl _ \<Rightarrow> h | Inr (_, h') \<Rightarrow> h')
      | Get_receiver_of ch \<Rightarrow> (case get_receiver ch h of Inl _ \<Rightarrow> h | Inr (_, h') \<Rightarrow> h')
      | Get_closer_of ch \<Rightarrow> (case get_closer ch h of Inl _ \<Rightarrow> h | Inr (_, h') \<Rightarrow> h')
      | Push_on ch x \<Rightarrow> (case channel_push_call ch x h of Inl _ \<Rightarrow> h | Inr (_, _, h') \<Rightarrow> h')
      | Close_on ch \<Rightarrow> (case channel_close_call ch h of Inl _ \<Rightarrow> h | Inr (_, _, h') \<Rightarrow> h')
      | Avail_of_sender sn \<Rightarrow> (case sender_avail sn h of Inl _ \<Rightarrow> h | Inr (_, _, h') \<Rightarrow> h')
      | Push_through sn x \<Rightarrow> (case sender_push_call sn x h of Inl _ \<Rightarrow> h | Inr (_, _, h') \<Rightarrow> h')
      | Close_through sn \<Rightarrow> (case sender_close_call sn h of Inl _ \<Rightarrow> h | Inr (_, _, h') \<Rightarrow> h')
      | Avail_of_receiver rc \<Rightarrow> (case receiver_avail rc h of Inl _ \<Rightarrow> h | Inr (_, _, h') \<Rightarrow> h')
      | Next_of rc \<Rightarrow> (case receiver_next_call rc h of Inl _ \<Rightarrow> h | Inr (_, _, h') \<Rightarrow> h')
      | Peek_of rc \<Rightarrow> (case receiver_peek_call rc h of Inl _ \<Rightarrow> h | Inr (_, _, h') \<Rightarrow> h')
      | Share_of rc \<Rightarrow> (case receiver_share rc h of Inl _ \<Rightarrow> h | Inr (_, _, h') \<Rightarrow> h')
      | Close_by c \<Rightarrow> (case channel_closer_close_call c h of Inl _ \<Rightarrow> h | Inr (_, h') \<Rightarrow> h'))"

fun heap_run :: "'a call list \<Rightarrow> 'a heap \<Rightarrow> 'a heap" where
  "heap_run [] h = h"
| "heap_run (c # cs) h = heap_run cs (heap_after c h)"

section \<open>The scheduler\<close>

text \<open>
  A \<open>std::thread\<close> handle is named by a number. The world outside the scheduler is the
  heap of channel states, the set of joinable threads and the log of completed joins.
\<close>

type_synonym thread = nat

record 'a world =
  heap :: "'a heap"
  joinable :: "thread set"
  joined :: "thread list"

text \<open>\<open>std::thread::join\<close>, for a thread that terminates.\<close>

definition thread_join :: "thread \<Rightarrow> 'a world \<Rightarrow> error + 'a world" where
  "thread_join th w =
     (if th \<in> joinable w
      then Inr (w\<lparr>joinable := joinable w - {th}, joined := joined w @ [th]\<rparr>)
      else Inl system_error)"

record scheduler =
  closers :: "channel_closer list"
  threads :: "thread list"
  scheduler_is_closed_v :: bool

definition scheduler_ctor :: scheduler where
  "scheduler_ctor = \<lparr>closers = [], threads = [], scheduler_is_closed_v = False\<rparr>"

text \<open>The loop of \<open>scheduler::halt\<close> over the closers.\<close>

fun close_each :: "channel_closer list \<Rightarrow> 'a heap \<Rightarrow> error + 'a heap" where
  "close_each [] h = Inr h"
| "close_each (c # cs) h =
     (case channel_closer_close_call c h of
        Inl e \<Rightarrow> Inl e
      | Inr (_, h') \<Rightarrow> close_each cs h')"

text \<open>\<open>scheduler::halt\<close>\<close>

definition halt :: "scheduler \<Rightarrow> 'a world \<Rightarrow> error + scheduler \<times> 'a world" where
  "halt sch w =
     (case close_each (closers sch) (heap w) of
        Inl e \<Rightarrow> Inl e
      | Inr h' \<Rightarrow> Inr (sch\<lparr>scheduler_is_closed_v := True\<rparr>, w\<lparr>heap := h'\<rparr>))"

text \<open>
  \<open>scheduler::connect(std::thread &&, const channel_closer &)\<close>. On a running scheduler
  \<open>closers.push_front(closer)\<close> copies the closer, and with it the \<open>reference_counter\<close>:
  the channel state gets one owner more.
\<close>

definition connect ::
  "thread \<Rightarrow> channel_closer \<Rightarrow> scheduler \<Rightarrow> 'a world \<Rightarrow> error + scheduler \<times> 'a world" where
  "connect th closer sch w =
     (if scheduler_is_closed_v sch then
        (case channel_closer_close_call closer (heap w) of
           Inl e \<Rightarrow> Inl e
         | Inr (_, h') \<Rightarrow>
             (case thread_join th (w\<lparr>heap := h'\<rparr>) of
                Inl e \<Rightarrow> Inl e
              | Inr w' \<Rightarrow> Inr (sch, w')))
      else
        Inr (sch\<lparr>threads := th # threads sch, closers := closer # closers sch\<rparr>,
             w\<lparr>heap := copy_ptr (reference_counter closer) (heap w)\<rparr>))"

text \<open>
  \<open>scheduler::connect(std::thread &&, channel_closer &&)\<close>: the same body, but
  \<open>closers.push_front(std::move(closer))\<close> moves the closer, so that the stored closer takes
  over the caller's share in the channel state and the number of owners stays.
\<close>

definition connect_move ::
  "thread \<Rightarrow> channel_closer \<Rightarrow> scheduler \<Rightarrow> 'a world \<Rightarrow> error + scheduler \<times> 'a world" where
  "connect_move th closer sch w =
     (if scheduler_is_closed_v sch then
        (case channel_closer_close_call closer (heap w) of
           Inl e \<Rightarrow> Inl e
         | Inr (_, h') \<Rightarrow>
             (case thread_join th (w\<lparr>heap := h'\<rparr>) of
                Inl e \<Rightarrow> Inl e
              | Inr w' \<Rightarrow> Inr (sch, w')))
      else Inr (sch\<lparr>threads := th # threads sch, closers := closer # closers sch\<rparr>, w))"

section \<open>Runs of a channel\<close>

text \<open>
  The calls that need no receiver: the pushes and closes of the channel, of a sender and of
  a closer, and the creation of a sender. Any thread may make them, in any order: a run is a
  list of events, each one critical section.
\<close>

datatype 'a producer_event =
    Channel_push 'a
  | Sender_push 'a
  | Channel_close
  | Sender_close
  | Closer_close
  | Get_sender

text \<open>The calls on a channel that has a receiver: also a further \<open>get_receiver\<close>, and the
  receiver's own \<open>next\<close> and peek.\<close>

datatype 'a event = Producer "'a producer_event" | Get_receiver | Next | Peek

text \<open>
  What the caller of an event sees: that the call returned, with the notification it issued;
  that it returned a handle; that it threw; the value or the optional it returned; or that it
  is still waiting.
\<close>

datatype 'a obs =
    Returned notification
  | Returned_handle
  | Threw error
  | Returned_value 'a
  | Returned_optional "'a option"
  | Blocked

definition producer_step ::
  "'a producer_event \<Rightarrow> 'a channel_state \<Rightarrow> 'a obs \<times> 'a channel_state" where
  "producer_step e s =
     (case e of
        Channel_push x \<Rightarrow>
          (case channel_push x s of Inl err \<Rightarrow> (Threw err, s) | Inr (s', n) \<Rightarrow> (Returned n, s'))
      | Sender_push x \<Rightarrow>
          (case sender_push x s of Inl err \<Rightarrow> (Threw err, s) | Inr (s', n) \<Rightarrow> (Returned n, s'))
      | Channel_close \<Rightarrow> (case channel_close s of (s', n) \<Rightarrow> (Returned n, s'))
      | Sender_close \<Rightarrow> (case sender_close s of (s', n) \<Rightarrow> (Returned n, s'))
      | Closer_close \<Rightarrow> (case channel_closer_close s of (s', n) \<Rightarrow> (Returned n, s'))
      | Get_sender \<Rightarrow>
          (case sender_ctor s of
             Inl err \<Rightarrow> (Threw err, s)
           | Inr s' \<Rightarrow> (Returned_handle, s')))"

text \<open>
  A step of a channel with its receiver: the receiver's iterator and the state. A
  \<open>get_receiver\<close> that succeeded here would make a second receiver, which the run does not
  follow; it never does once \<open>has_receiver_v\<close> is set.
\<close>

definition step ::
  "'a event \<Rightarrow> iter \<times> 'a channel_state \<Rightarrow> 'a obs \<times> iter \<times> 'a channel_state" where
  "step e c =
     (case c of (iterator, s) \<Rightarrow>
        (case e of
           Producer p \<Rightarrow> (case producer_step p s of (ob, s') \<Rightarrow> (ob, iterator, s'))
         | Get_receiver \<Rightarrow>
             (case receiver_ctor s of
                Inl err \<Rightarrow> (Threw err, iterator, s)
              | Inr (s', _) \<Rightarrow> (Returned_handle, iterator, s'))
         | Next \<Rightarrow>
             (case receiver_next iterator s of
                Inl err \<Rightarrow> (Threw err, iterator, s)
              | Inr None \<Rightarrow> (Blocked, iterator, s)
              | Inr (Some (v, iterator', s')) \<Rightarrow> (Returned_value v, iterator', s'))
         | Peek \<Rightarrow>
             (case receiver_peek iterator s of
                (Inl err, c') \<Rightarrow> (Threw err, c')
              | (Inr r, c') \<Rightarrow> (Returned_optional r, c'))))"

text \<open>The state after a run of producer events, on a channel without receiver.\<close>

fun producer_run :: "'a producer_event list \<Rightarrow> 'a channel_state \<Rightarrow> 'a channel_state" where
  "producer_run [] s = s"
| "producer_run (e # es) s = producer_run es (snd (producer_step e s))"

text \<open>The configuration after a run, and what its callers saw, in order.\<close>

fun final :: "'a event list \<Rightarrow> iter \<times> 'a channel_state \<Rightarrow> iter \<times> 'a channel_state" where
  "final [] c = c"
| "final (e # es) c = final es (snd (step e c))"

fun observed :: "'a event list \<Rightarrow> iter \<times> 'a channel_state \<Rightarrow> 'a obs list" where
  "observed [] c = []"
| "observed (e # es) c = fst (step e c) # observed es (snd (step e c))"

text \<open>The values a run pushes, and the values its \<open>next\<close> calls return, in order.\<close>

definition pushed_by :: "'a event \<Rightarrow> 'a list" where
  "pushed_by e =
     (case e of
        Producer (Channel_push x) \<Rightarrow> [x]
      | Producer (Sender_push x) \<Rightarrow> [x]
      | _ \<Rightarrow> [])"

definition pushed :: "'a event list \<Rightarrow> 'a list" where
  "pushed es = concat (map pushed_by es)"

definition value_of :: "'a obs \<Rightarrow> 'a list" where
  "value_of ob = (case ob of Returned_value v \<Rightarrow> [v] | _ \<Rightarrow> [])"

definition received :: "'a obs list \<Rightarrow> 'a list" where
  "received obs = concat (map value_of obs)"

text \<open>
  The values a run pushes while \<open>has_receiver_v\<close> is set: the ones that push does not drop.
\<close>

definition kept_by :: "'a producer_event \<Rightarrow> 'a channel_state \<Rightarrow> 'a list" where
  "kept_by e s =
     (case e of
        Channel_push x \<Rightarrow> if has_receiver_v s then [x] else []
      | Sender_push x \<Rightarrow> if has_receiver_v s then [x] else []
      | _ \<Rightarrow> [])"

fun producer_kept :: "'a producer_event list \<Rightarrow> 'a channel_state \<Rightarrow> 'a list" where
  "producer_kept [] s = []"
| "producer_kept (e # es) s = kept_by e s @ producer_kept es (snd (producer_step e s))"

fun kept :: "'a event list \<Rightarrow> iter \<times> 'a channel_state \<Rightarrow> 'a list" where
  "kept [] c = []"
| "kept (e # es) c =
     (case e of Producer p \<Rightarrow> kept_by p (snd c) | _ \<Rightarrow> []) @ kept es (snd (step e c))"

section \<open>Invariants\<close>

text \<open>The nodes of a list are distinct and were all allocated.\<close>

definition fl_wf :: "'a forward_list \<Rightarrow> bool" where
  "fl_wf l \<longleftrightarrow>
     distinct (map fst (nodes l)) \<and> (\<forall>n \<in> set (map fst (nodes l)). n < allocated l)"

text \<open>The queue is never empty, and the tail cursor is on its last node.\<close>

definition chan_wf :: "'a channel_state \<Rightarrow> bool" where
  "chan_wf s \<longleftrightarrow>
     fl_wf (data s) \<and> nodes (data s) \<noteq> [] \<and>
     last_it s = At (fst (List.last (nodes (data s))))"

text \<open>The slots behind the first one, oldest first.\<close>

definition unread :: "'a channel_state \<Rightarrow> 'a option list" where
  "unread s = map snd (tl (nodes (data s)))"

text \<open>The slot of the first node.\<close>

definition head_slot :: "'a channel_state \<Rightarrow> 'a option" where
  "head_slot s = snd (hd (nodes (data s)))"

text \<open>
  A channel with its receiver: the receiver's iterator is on the first node, and every slot
  behind it holds a value.
\<close>

definition attached :: "iter \<Rightarrow> 'a channel_state \<Rightarrow> bool" where
  "attached iterator s \<longleftrightarrow>
     chan_wf s \<and> has_receiver_v s \<and> iterator = fl_begin (data s) \<and> None \<notin> set (unread s)"

section \<open>The list operations at the ends of the list\<close>

lemma link_after_last:
  "ns \<noteq> [] \<Longrightarrow> distinct (map fst ns) \<Longrightarrow>
   link_after (fst (List.last ns)) new ns = Some (ns @ [new])"
proof (induction ns)
  case Nil
  then show ?case by simp
next
  case (Cons a ns)
  obtain m x where a: "a = (m, x)" by (cases a)
  show ?case
  proof (cases "ns = []")
    case True
    then show ?thesis using a by simp
  next
    case False
    then have "fst (List.last ns) \<in> set (map fst ns)" by simp
    then have "m \<noteq> fst (List.last ns)" using Cons.prems a by auto
    then show ?thesis using Cons False a by simp
  qed
qed

lemma successor_last:
  "ns \<noteq> [] \<Longrightarrow> distinct (map fst ns) \<Longrightarrow> fst new \<notin> set (map fst ns) \<Longrightarrow>
   successor (fst (List.last ns)) (ns @ [new]) = Some (At (fst new))"
proof (induction ns)
  case Nil
  then show ?case by simp
next
  case (Cons a ns)
  obtain m x where a: "a = (m, x)" by (cases a)
  obtain k y where new: "new = (k, y)" by (cases new)
  show ?case
  proof (cases "ns = []")
    case True
    then show ?thesis using a new by simp
  next
    case False
    then have "fst (List.last ns) \<in> set (map fst ns)" by simp
    then have "m \<noteq> fst (List.last ns)" using Cons.prems a by auto
    then show ?thesis using Cons False a by simp
  qed
qed

lemma successor_of_last:
  "ns \<noteq> [] \<Longrightarrow> distinct (map fst ns) \<Longrightarrow> successor (fst (List.last ns)) ns = Some Past_end"
proof (induction ns)
  case Nil
  then show ?case by simp
next
  case (Cons a ns)
  obtain m x where a: "a = (m, x)" by (cases a)
  show ?case
  proof (cases "ns = []")
    case True
    then show ?thesis using a by simp
  next
    case False
    then have "fst (List.last ns) \<in> set (map fst ns)" by simp
    then have "m \<noteq> fst (List.last ns)" using Cons.prems a by auto
    then show ?thesis using Cons False a by simp
  qed
qed

section \<open>The steps of a channel with its receiver\<close>

text \<open>What the constructor of the receiver does for each value of the two flags.\<close>

lemma receiver_ctor_cases:
  "receiver_ctor s =
     (if has_receiver_v s then Inl receiver_already_retrived
      else if is_closed_v s then Inl channel_already_closed
      else Inr (s\<lparr>has_receiver_v := True\<rparr>, last_it s))"
  by (simp add: receiver_ctor_def receiver_register_def receiver_snapshot_def)

lemma sender_push_eq: "sender_push x s = channel_push x s"
  by (simp add: sender_push_def channel_push_def)

lemma sender_close_eq: "sender_close s = channel_close s"
  by (simp add: sender_close_def channel_close_def)

lemma channel_closer_close_eq: "channel_closer_close s = channel_close s"
  by (simp add: channel_closer_close_def channel_close_def)

lemma push_appends:
  assumes "chan_wf s" "has_receiver_v s"
  shows "channel_push x s =
    Inr (s\<lparr>data := \<lparr>nodes = nodes (data s) @ [(allocated (data s), Some x)],
                    allocated = Suc (allocated (data s))\<rparr>,
           last_it := At (allocated (data s))\<rparr>, notify_one)"
proof -
  let ?ns = "nodes (data s)" and ?new = "(allocated (data s), Some x)"
  have ne: "?ns \<noteq> []" and d: "distinct (map fst ?ns)"
    and l: "last_it s = At (fst (List.last ?ns))"
    and fresh: "fst ?new \<notin> set (map fst ?ns)"
    using assms by (auto simp: chan_wf_def fl_wf_def)
  have 1: "link_after (fst (List.last ?ns)) ?new ?ns = Some (?ns @ [?new])"
    by (rule link_after_last [OF ne d])
  have 2: "successor (fst (List.last ?ns)) (?ns @ [?new]) = Some (At (fst ?new))"
    by (rule successor_last [OF ne d fresh])
  show ?thesis
    using assms(2) l 1 2 by (simp add: channel_push_def insert_after_def incr_def)
qed

lemma receiver_next_attached:
  assumes "attached iterator s"
  shows "receiver_next iterator s =
    (case tl (nodes (data s)) of
       [] \<Rightarrow> if is_closed_v s then Inl close_channel else Inr None
     | (n, x) # _ \<Rightarrow>
         if is_closed_v s then Inl close_channel
         else Inr (Some (the x, At n, s\<lparr>data := (data s)\<lparr>nodes := tl (nodes (data s))\<rparr>\<rparr>)))"
proof -
  from assms obtain m y ns where ns: "nodes (data s) = (m, y) # ns"
    by (cases "nodes (data s)") (auto simp: attached_def chan_wf_def)
  have it: "iterator = At m" using assms ns by (simp add: attached_def fl_begin_def)
  show ?thesis
  proof (cases ns)
    case Nil
    then show ?thesis using ns it
      by (simp add: receiver_next_def wait_pred_def incr_def)
  next
    case (Cons a ns')
    obtain n x where a: "a = (n, x)" by (cases a)
    have "x \<noteq> None" using assms ns Cons a by (auto simp: attached_def unread_def)
    then obtain v where x: "x = Some v" by auto
    show ?thesis using ns it Cons a x
      by (simp add: receiver_next_def wait_pred_def incr_def pop_front_def deref_def)
  qed
qed

lemma attached_push:
  assumes "attached iterator s"
  shows "\<exists>s'. channel_push x s = Inr (s', notify_one) \<and> attached iterator s' \<and>
           unread s' = unread s @ [Some x] \<and> is_closed_v s' = is_closed_v s \<and>
           head_slot s' = head_slot s"
proof -
  have wf: "chan_wf s" and hr: "has_receiver_v s" using assms by (auto simp: attached_def)
  let ?s' = "s\<lparr>data := \<lparr>nodes = nodes (data s) @ [(allocated (data s), Some x)],
                    allocated = Suc (allocated (data s))\<rparr>,
           last_it := At (allocated (data s))\<rparr>"
  have p: "channel_push x s = Inr (?s', notify_one)" by (rule push_appends [OF wf hr])
  have ne: "nodes (data s) \<noteq> []" using wf by (simp add: chan_wf_def)
  have "chan_wf ?s'" using wf by (auto simp: chan_wf_def fl_wf_def less_Suc_eq)
  moreover have "fl_begin (data ?s') = fl_begin (data s)"
    using ne by (cases "nodes (data s)") (auto simp: fl_begin_def)
  moreover have u: "unread ?s' = unread s @ [Some x]" using ne by (simp add: unread_def)
  ultimately have "attached iterator ?s'" using assms by (auto simp: attached_def)
  moreover have "head_slot ?s' = head_slot s" using ne by (simp add: head_slot_def)
  ultimately show ?thesis using p u by simp
qed

lemma attached_next_value:
  assumes "attached iterator s" "receiver_next iterator s = Inr (Some (v, iterator', s'))"
  shows "attached iterator' s' \<and> unread s = Some v # unread s' \<and>
         is_closed_v s' = is_closed_v s \<and> \<not> is_closed_v s \<and> head_slot s' = Some v"
proof -
  from assms(1) obtain m y ns where ns: "nodes (data s) = (m, y) # ns"
    by (cases "nodes (data s)") (auto simp: attached_def chan_wf_def)
  from assms obtain n x ns' where c: "ns = (n, x) # ns'" and
    r: "v = the x" "iterator' = At n" "s' = s\<lparr>data := (data s)\<lparr>nodes := ns\<rparr>\<rparr>"
    and nc: "\<not> is_closed_v s"
    using ns by (auto simp: receiver_next_attached split: list.splits if_splits)
  have "x \<noteq> None" using assms(1) ns c by (auto simp: attached_def unread_def)
  then have x: "x = Some v" using r by auto
  have wf: "chan_wf s" using assms by (simp add: attached_def)
  have "chan_wf s'" using wf ns c r(3) by (auto simp: chan_wf_def fl_wf_def)
  moreover have "iterator' = fl_begin (data s')" using r(2,3) c by (simp add: fl_begin_def)
  moreover have "unread s = Some v # unread s'" using ns c r(3) x by (simp add: unread_def)
  moreover have "head_slot s' = Some v" using c r(3) x by (simp add: head_slot_def)
  ultimately show ?thesis using assms(1) r(2,3) nc by (auto simp: attached_def)
qed

lemma attached_peek:
  assumes "attached iterator s"
  shows "receiver_peek iterator s = (Inr (head_slot s), iterator, s)"
proof -
  from assms obtain m y ns where ns: "nodes (data s) = (m, y) # ns"
    by (cases "nodes (data s)") (auto simp: attached_def chan_wf_def)
  have it: "iterator = At m" using assms ns by (simp add: attached_def fl_begin_def)
  show ?thesis using ns it by (simp add: receiver_peek_def deref_def head_slot_def)
qed

text \<open>One step keeps the invariant, never runs into undefined behaviour, and accounts for
  every value.\<close>

lemma step_attached:
  assumes "attached iterator s"
  shows "attached (fst (snd (step e (iterator, s)))) (snd (snd (step e (iterator, s)))) \<and>
         fst (step e (iterator, s)) \<noteq> Threw undefined_behavior \<and>
         map Some (value_of (fst (step e (iterator, s)))) @
           unread (snd (snd (step e (iterator, s)))) = unread s @ map Some (pushed_by e) \<and>
         (is_closed_v s \<longrightarrow> is_closed_v (snd (snd (step e (iterator, s)))) \<and>
                              value_of (fst (step e (iterator, s))) = [])"
proof (cases e)
  case (Producer p)
  have push: "?thesis" if "e = Producer (Channel_push x) \<or> e = Producer (Sender_push x)" for x
  proof -
    from attached_push [OF assms, of x] obtain s' where
      "channel_push x s = Inr (s', notify_one)" "attached iterator s'"
      "unread s' = unread s @ [Some x]" "is_closed_v s' = is_closed_v s"
      by blast
    then show ?thesis using that
      by (auto simp: step_def producer_step_def value_of_def pushed_by_def sender_push_eq)
  qed
  have closed: "attached iterator (s\<lparr>is_closed_v := True\<rparr>)"
    using assms by (simp add: attached_def chan_wf_def unread_def)
  show ?thesis
  proof (cases p)
    case (Channel_push x)
    then show ?thesis using Producer push by simp
  next
    case (Sender_push x)
    then show ?thesis using Producer push by simp
  next
    case Channel_close
    then show ?thesis using Producer closed
      by (simp add: step_def producer_step_def channel_close_def unread_def value_of_def
          pushed_by_def)
  next
    case Sender_close
    then show ?thesis using Producer closed
      by (simp add: step_def producer_step_def sender_close_def unread_def value_of_def
          pushed_by_def)
  next
    case Closer_close
    then show ?thesis using Producer closed
      by (simp add: step_def producer_step_def channel_closer_close_def unread_def value_of_def
          pushed_by_def)
  next
    case Get_sender
    then show ?thesis using Producer assms
      by (simp add: step_def producer_step_def sender_ctor_def value_of_def pushed_by_def)
  qed
next
  case Get_receiver
  have "has_receiver_v s" using assms by (simp add: attached_def)
  then show ?thesis using Get_receiver assms
    by (simp add: step_def receiver_ctor_cases value_of_def pushed_by_def)
next
  case Next
  show ?thesis
  proof (cases "receiver_next iterator s")
    case (Inl err)
    then have "err = close_channel"
      by (auto simp: receiver_next_attached [OF assms] split: list.splits if_splits)
    then show ?thesis using Next Inl assms by (simp add: step_def value_of_def pushed_by_def)
  next
    case (Inr r)
    show ?thesis
    proof (cases r)
      case None
      then show ?thesis using Next Inr assms by (simp add: step_def value_of_def pushed_by_def)
    next
      case (Some t)
      obtain v iterator' s' where t: "t = (v, iterator', s')" by (cases t)
      from attached_next_value [OF assms] Inr Some t
      have "attached iterator' s' \<and> unread s = Some v # unread s' \<and>
            is_closed_v s' = is_closed_v s \<and> \<not> is_closed_v s"
        by simp
      then show ?thesis using Next Inr Some t
        by (simp add: step_def value_of_def pushed_by_def)
    qed
  qed
next
  case Peek
  show ?thesis using Peek assms
    by (simp add: step_def attached_peek [OF assms] value_of_def pushed_by_def)
qed

lemma run_attached:
  assumes "attached iterator s"
  shows "attached (fst (final es (iterator, s))) (snd (final es (iterator, s))) \<and>
         Threw undefined_behavior \<notin> set (observed es (iterator, s)) \<and>
         map Some (received (observed es (iterator, s))) @ unread (snd (final es (iterator, s)))
           = unread s @ map Some (pushed es)"
  using assms
proof (induction es arbitrary: iterator s)
  case Nil
  then show ?case by (simp add: received_def pushed_def)
next
  case (Cons e es)
  let ?c = "snd (step e (iterator, s))"
  let ?ob = "fst (step e (iterator, s))"
  from step_attached [OF Cons.prems, of e]
  have a: "attached (fst ?c) (snd ?c)" and nub: "?ob \<noteq> Threw undefined_behavior"
    and eq: "map Some (value_of ?ob) @ unread (snd ?c) = unread s @ map Some (pushed_by e)"
    by simp_all
  from Cons.IH [OF a]
  have ih: "attached (fst (final es ?c)) (snd (final es ?c))"
    "Threw undefined_behavior \<notin> set (observed es ?c)"
    "map Some (received (observed es ?c)) @ unread (snd (final es ?c))
       = unread (snd ?c) @ map Some (pushed es)"
    by simp_all
  have "map Some (received (?ob # observed es ?c)) @ unread (snd (final es ?c))
        = map Some (value_of ?ob) @ unread (snd ?c) @ map Some (pushed es)"
    using ih(3) by (simp add: received_def)
  also have "\<dots> = unread s @ map Some (pushed (e # es))"
    using eq by (simp add: pushed_def)
  finally show ?case using ih(1,2) nub by simp
qed

lemma run_closed:
  assumes "attached iterator s" "is_closed_v s"
  shows "is_closed_v (snd (final es (iterator, s))) \<and> received (observed es (iterator, s)) = []"
  using assms
proof (induction es arbitrary: iterator s)
  case Nil
  then show ?case by (simp add: received_def)
next
  case (Cons e es)
  let ?c = "snd (step e (iterator, s))"
  from step_attached [OF Cons.prems(1), of e] Cons.prems(2)
  have a: "attached (fst ?c) (snd ?c)" and cl: "is_closed_v (snd ?c)"
    and v: "value_of (fst (step e (iterator, s))) = []"
    by simp_all
  from Cons.IH [OF a cl] v show ?case by (simp add: received_def)
qed

section \<open>The channel before its receiver is attached\<close>

lemma producer_step_has_receiver:
  "has_receiver_v (snd (producer_step e s)) = has_receiver_v s"
  by (cases e)
    (auto simp: producer_step_def channel_push_def sender_push_def channel_close_def
      sender_close_def channel_closer_close_def sender_ctor_def split: sum.splits)

lemma producer_step_no_receiver:
  assumes "\<not> has_receiver_v s"
  shows "data (snd (producer_step e s)) = data s \<and> last_it (snd (producer_step e s)) = last_it s"
  using assms
  by (cases e)
    (auto simp: producer_step_def channel_push_def sender_push_def channel_close_def
      sender_close_def channel_closer_close_def sender_ctor_def)

lemma producer_run_no_receiver:
  assumes "\<not> has_receiver_v s"
  shows "\<not> has_receiver_v (producer_run es s) \<and> data (producer_run es s) = data s \<and>
         last_it (producer_run es s) = last_it s"
  using assms
proof (induction es arbitrary: s)
  case Nil
  then show ?case by simp
next
  case (Cons e es)
  have "\<not> has_receiver_v (snd (producer_step e s))"
    using Cons.prems by (simp add: producer_step_has_receiver)
  from Cons.IH [OF this] producer_step_no_receiver [OF Cons.prems, of e]
  show ?case by simp
qed

lemma producer_run_has_receiver:
  "has_receiver_v (producer_run es s) = has_receiver_v s"
  by (induction es arbitrary: s) (simp_all add: producer_step_has_receiver)

text \<open>
  The two critical sections of the receiver's constructor, with any calls of other threads
  between them, do what the constructor does in one step after those calls.
\<close>

lemma receiver_ctor_interleaved:
  "receiver_register (receiver_snapshot s) (producer_run ps s) = receiver_ctor (producer_run ps s)"
proof (cases "has_receiver_v s")
  case True
  then show ?thesis
    by (simp add: receiver_register_def receiver_ctor_cases producer_run_has_receiver)
next
  case False
  from producer_run_no_receiver [OF this, of ps] show ?thesis
    by (simp add: receiver_register_def receiver_snapshot_def receiver_ctor_cases)
qed

text \<open>A receiver that is attached finds the queue as the constructor left it.\<close>

lemma receiver_ctor_fresh:
  assumes "receiver_ctor (producer_run pre (channel_state_ctor hr)) = Inr (s, iterator)"
  shows "attached iterator s \<and> unread s = [] \<and> head_slot s = None \<and> \<not> is_closed_v s \<and>
         nodes (data s) = [(0, None)] \<and> iterator = At 0 \<and> \<not> hr"
proof -
  let ?s0 = "producer_run pre (channel_state_ctor hr)"
  have nr: "\<not> has_receiver_v ?s0" and nc: "\<not> is_closed_v ?s0"
    and s: "s = ?s0\<lparr>has_receiver_v := True\<rparr>" and it: "iterator = last_it ?s0"
    using assms by (auto simp: receiver_ctor_cases split: if_splits)
  have hr: "\<not> hr" using nr by (simp add: producer_run_has_receiver channel_state_ctor_def Let_def)
  then have "\<not> has_receiver_v (channel_state_ctor hr :: 'a channel_state)"
    by (simp add: channel_state_ctor_def Let_def)
  from producer_run_no_receiver [OF this, of pre]
  have d: "data ?s0 = fl_init None" and l: "last_it ?s0 = At 0"
    by (simp_all add: channel_state_ctor_def Let_def fl_begin_def fl_init_def)
  show ?thesis using s it d l nc hr
    by (simp add: attached_def chan_wf_def fl_wf_def unread_def head_slot_def fl_init_def
        fl_begin_def)
qed

section \<open>Pushes followed by as many calls of \<open>next\<close>\<close>

lemma observed_append:
  "observed (xs @ ys) c = observed xs c @ observed ys (final xs c)"
  by (induction xs arbitrary: c) simp_all

lemma run_pushes:
  assumes "attached iterator s"
  shows "observed (map (\<lambda>v. Producer (Sender_push v)) vs) (iterator, s)
           = replicate (length vs) (Returned notify_one) \<and>
         (\<exists>s'. final (map (\<lambda>v. Producer (Sender_push v)) vs) (iterator, s) = (iterator, s') \<and>
               attached iterator s' \<and> unread s' = unread s @ map Some vs \<and>
               is_closed_v s' = is_closed_v s)"
  using assms
proof (induction vs arbitrary: s)
  case Nil
  then show ?case by simp
next
  case (Cons v vs)
  from attached_push [OF Cons.prems, of v] obtain s1 where
    p: "channel_push v s = Inr (s1, notify_one)" and a: "attached iterator s1"
    and u: "unread s1 = unread s @ [Some v]" and c: "is_closed_v s1 = is_closed_v s"
    by blast
  have st: "step (Producer (Sender_push v)) (iterator, s) = (Returned notify_one, iterator, s1)"
    using p by (simp add: step_def producer_step_def sender_push_eq)
  from Cons.IH [OF a] u c st show ?case by simp
qed

lemma run_nexts:
  assumes "attached iterator s" "\<not> is_closed_v s" "unread s = map Some vs"
  shows "observed (replicate (length vs) Next) (iterator, s) = map Returned_value vs"
  using assms
proof (induction vs arbitrary: iterator s)
  case Nil
  then show ?case by simp
next
  case (Cons v vs)
  from Cons.prems(1) obtain m y ns where ns: "nodes (data s) = (m, y) # ns"
    by (cases "nodes (data s)") (auto simp: attached_def chan_wf_def)
  from Cons.prems(3) ns obtain n ns' where c: "ns = (n, Some v) # ns'"
    by (cases ns) (auto simp: unread_def)
  let ?s' = "s\<lparr>data := (data s)\<lparr>nodes := ns\<rparr>\<rparr>"
  have r: "receiver_next iterator s = Inr (Some (v, At n, ?s'))"
    using ns c Cons.prems(2) by (simp add: receiver_next_attached [OF Cons.prems(1)])
  from attached_next_value [OF Cons.prems(1) r] Cons.prems(3)
  have a: "attached (At n) ?s'" and nc: "\<not> is_closed_v ?s'" and u: "unread ?s' = map Some vs"
    by simp_all
  have st: "step Next (iterator, s) = (Returned_value v, At n, ?s')"
    using r by (simp add: step_def)
  from Cons.IH [OF a nc u] st show ?case by simp
qed

section \<open>Loading, storing and copying through a pointer\<close>

lemma store_same: "load p h = Inr s \<Longrightarrow> store p s h = h"
  by (auto simp: load_def store_def fun_upd_idem split: option.splits)

lemma load_store: "load p h = Inr s \<Longrightarrow> load p (store p s' h) = Inr s'"
  by (auto simp: load_def store_def split: option.splits)

lemma load_copy_ptr: "load p (copy_ptr q h) = load p h"
  by (auto simp: load_def copy_ptr_def split: option.splits)

lemma use_count_copy_ptr:
  "load p h = Inr s \<Longrightarrow> use_count p (copy_ptr p h) = Suc (use_count p h)"
  by (auto simp: load_def use_count_def copy_ptr_def split: option.splits)

section \<open>First in, first out\<close>

text \<open>
  C1. Take a channel as its constructor made it, after any calls that need no receiver, and
  attach its receiver. In every run that follows, whoever pushes and however the pushes, the
  closes and the calls of \<open>next\<close> interleave, the values that the calls of \<open>next\<close> return
  are, in order, the first of the values pushed since the receiver was attached; when as
  many were returned as were pushed, they are the pushed values themselves. In particular
  pushing \<open>v1..vn\<close> and then calling \<open>next\<close> \<open>n\<close> times returns \<open>v1..vn\<close> in that order.
\<close>

theorem fifo_order:
  assumes "receiver_ctor (producer_run pre (channel_state_ctor hr)) = Inr (s, iterator)"
  shows "prefix (received (observed es (iterator, s))) (pushed es) \<and>
         (length (received (observed es (iterator, s))) = length (pushed es) \<longrightarrow>
            received (observed es (iterator, s)) = pushed es) \<and>
         observed (map (\<lambda>v. Producer (Sender_push v)) vs @ replicate (length vs) Next)
             (iterator, s)
           = replicate (length vs) (Returned notify_one) @ map Returned_value vs"
proof -
  from receiver_ctor_fresh [OF assms]
  have a: "attached iterator s" and u: "unread s = []" and nc: "\<not> is_closed_v s"
    by blast+
  let ?r = "received (observed es (iterator, s))"
  from run_attached [OF a, of es] u
  have "map Some ?r @ unread (snd (final es (iterator, s))) = map Some (pushed es)"
    by simp
  then have "prefix (map Some ?r) (map Some (pushed es))"
    by (metis prefixI)
  then have p: "prefix ?r (pushed es)"
    by (simp add: prefix_map_rightE inj_map_eq_map prefix_def map_eq_append_conv) 
  have e: "length ?r = length (pushed es) \<longrightarrow> ?r = pushed es"
    using p by (auto simp: prefix_def)
  let ?ps = "map (\<lambda>v. Producer (Sender_push v)) vs"
  from run_pushes [OF a, of vs] u obtain s' where
    o: "observed ?ps (iterator, s) = replicate (length vs) (Returned notify_one)"
    and f: "final ?ps (iterator, s) = (iterator, s')"
    and a': "attached iterator s'" and u': "unread s' = map Some vs"
    and c': "is_closed_v s' = is_closed_v s"
    by auto
  have "observed (replicate (length vs) Next) (iterator, s') = map Returned_value vs"
    using run_nexts [OF a' _ u'] c' nc by simp
  then have "observed (?ps @ replicate (length vs) Next) (iterator, s)
      = replicate (length vs) (Returned notify_one) @ map Returned_value vs"
    using o f by (simp add: observed_append)
  then show ?thesis using p e by simp
qed

theorem fifo_order_witness:
  "receiver_ctor (producer_run [Sender_push (7::nat), Get_sender] (channel_state_ctor False))
     = Inr (channel_state_ctor False\<lparr>has_receiver_v := True\<rparr>, At 0) \<and>
   received (observed
       [Producer (Sender_push 1), Producer (Channel_push 2), Next, Peek,
        Producer (Sender_push 3), Next, Next, Next]
       (At 0, channel_state_ctor False\<lparr>has_receiver_v := True\<rparr>)) = [1, 2, 3 :: nat] \<and>
   pushed
       [Producer (Sender_push 1), Producer (Channel_push 2), Next, Peek,
        Producer (Sender_push 3), Next, Next, Next] = [1, 2, 3 :: nat] \<and>
   observed
       (map (\<lambda>v. Producer (Sender_push v)) [4, 5 :: nat] @ replicate (length [4, 5 :: nat]) Next)
       (At 0, channel_state_ctor False\<lparr>has_receiver_v := True\<rparr>)
     = replicate (length [4, 5 :: nat]) (Returned notify_one) @ map Returned_value [4, 5]"
proof -
  let ?s = "channel_state_ctor False\<lparr>has_receiver_v := True\<rparr> :: nat channel_state"
  let ?es = "[Producer (Sender_push 1), Producer (Channel_push 2), Next, Peek,
        Producer (Sender_push 3), Next, Next, Next] :: nat event list"
  have h: "receiver_ctor (producer_run [Sender_push (7::nat), Get_sender] (channel_state_ctor False))
     = Inr (?s, At 0)"
    by code_simp
  have p: "pushed ?es = [1, 2, 3]"
    by code_simp
  have l: "length (received (observed ?es (At 0, ?s))) = length (pushed ?es)"
    by code_simp
  from fifo_order [OF h, of ?es "[4, 5]"]
  have c: "length (received (observed ?es (At 0, ?s))) = length (pushed ?es) \<longrightarrow>
          received (observed ?es (At 0, ?s)) = pushed ?es"
    and o: "observed
       (map (\<lambda>v. Producer (Sender_push v)) [4, 5 :: nat] @ replicate (length [4, 5 :: nat]) Next)
       (At 0, ?s)
     = replicate (length [4, 5 :: nat]) (Returned notify_one) @ map Returned_value [4, 5]"
    by blast+
  from c l have e: "received (observed ?es (At 0, ?s)) = pushed ?es" by blast
  from e p have r: "received (observed ?es (At 0, ?s)) = [1, 2, 3]" by (rule trans)
  show ?thesis using h r p o by blast
qed

section \<open>Closing comes before delivering\<close>

text \<open>
  C2. Take any configuration that a channel with its receiver reaches and in which the
  channel is closed. There \<open>next\<close> throws \<open>close_channel\<close>, whatever is still unread in
  the queue; and in every run from there no call of \<open>next\<close> returns a value.
\<close>

theorem close_precedence:
  assumes "receiver_ctor (producer_run pre (channel_state_ctor hr)) = Inr (s0, iterator0)"
    and "final es (iterator0, s0) = (iterator, s)"
    and "is_closed_v s"
  shows "receiver_next iterator s = Inl close_channel \<and>
         fst (step Next (iterator, s)) = Threw close_channel \<and>
         received (observed es' (iterator, s)) = []"
proof -
  from receiver_ctor_fresh [OF assms(1)] have "attached iterator0 s0" by blast
  from run_attached [OF this, of es] assms(2) have a: "attached iterator s" by simp
  have n: "receiver_next iterator s = Inl close_channel"
    using assms(3) by (simp add: receiver_next_attached [OF a] split: list.splits)
  then have "fst (step Next (iterator, s)) = Threw close_channel"
    by (simp add: step_def)
  then show ?thesis using n run_closed [OF a assms(3), of es'] by simp
qed

theorem close_precedence_witness:
  "receiver_ctor (producer_run [] (channel_state_ctor False))
     = Inr (channel_state_ctor False\<lparr>has_receiver_v := True\<rparr> :: nat channel_state, At 0) \<and>
   final [Producer (Sender_push (1::nat)), Producer Sender_close]
       (At 0, channel_state_ctor False\<lparr>has_receiver_v := True\<rparr>)
     = (At 0, \<lparr>has_receiver_v = True, is_closed_v = True,
              data = \<lparr>nodes = [(0, None), (1, Some 1)], allocated = 2\<rparr>, last_it = At 1\<rparr>) \<and>
   receiver_next (At 0) \<lparr>has_receiver_v = True, is_closed_v = True,
              data = \<lparr>nodes = [(0, None), (1, Some (1::nat))], allocated = 2\<rparr>, last_it = At 1\<rparr>
     = Inl close_channel \<and>
   received (observed [Next, Producer (Sender_push 2), Next, Peek, Next]
       (At 0, \<lparr>has_receiver_v = True, is_closed_v = True,
              data = \<lparr>nodes = [(0, None), (1, Some (1::nat))], allocated = 2\<rparr>, last_it = At 1\<rparr>))
     = []"
proof -
  let ?init = "channel_state_ctor False\<lparr>has_receiver_v := True\<rparr> :: nat channel_state"
  let ?closed = "\<lparr>has_receiver_v = True, is_closed_v = True,
              data = \<lparr>nodes = [(0, None), (1, Some (1::nat))], allocated = 2\<rparr>, last_it = At 1\<rparr>"
  have h1: "receiver_ctor (producer_run [] (channel_state_ctor False)) = Inr (?init, At 0)"
    by code_simp
  have h2: "final [Producer (Sender_push (1::nat)), Producer Sender_close] (At 0, ?init) = (At 0, ?closed)"
    by code_simp
  have h3: "is_closed_v ?closed" by simp
  note t = close_precedence [OF h1 h2 h3, of "[Next, Producer (Sender_push 2), Next, Peek, Next]"]
  show ?thesis
    by (intro conjI) (rule h1 h2 t [THEN conjunct1] t [THEN conjunct2, THEN conjunct2])+
qed

section \<open>Attaching the receiver\<close>

text \<open>Once set, \<open>has_receiver_v\<close> stays set: no later \<open>get_receiver\<close> succeeds.\<close>

lemma step_has_receiver:
  "has_receiver_v s \<Longrightarrow> has_receiver_v (snd (snd (step e (iterator, s))))"
proof (cases e)
  case (Producer p)
  assume "has_receiver_v s"
  with producer_step_has_receiver [of p s] show ?thesis using Producer
    by (cases "producer_step p s") (simp add: step_def)
next
  case Get_receiver
  assume "has_receiver_v s"
  then show ?thesis using Get_receiver by (simp add: step_def receiver_ctor_cases)
next
  case Next
  assume "has_receiver_v s"
  then show ?thesis using Next
    by (auto simp: step_def receiver_next_def split: sum.splits option.splits bool.splits)
next
  case Peek
  assume "has_receiver_v s"
  then show ?thesis using Peek
    by (auto simp: step_def receiver_peek_def split: sum.splits)
qed

text \<open>
  C3. The claim holds of every state in which \<open>has_receiver_v\<close> says whether a receiver
  exists. The constructor of the state leaves that member uninitialised: on a new channel
  whose member holds true, \<open>get_receiver\<close> throws \<open>receiver_already_retrived\<close> though no
  receiver exists, also when the channel was closed first, where the claim has
  \<open>channel_already_closed\<close>.
\<close>

theorem get_receiver_uninitialised_flag:
  "receiver_ctor (channel_state_ctor True) = Inl receiver_already_retrived \<and>
   (case channel_ctor True h of (ch, h') \<Rightarrow> get_receiver ch h') = Inl receiver_already_retrived \<and>
   receiver_ctor (fst (channel_close (channel_state_ctor True))) = Inl receiver_already_retrived"
  by (simp add: receiver_ctor_cases channel_state_ctor_def Let_def channel_close_def
      channel_ctor_def make_shared_def get_receiver_def load_def)

section \<open>Pushing without a receiver\<close>

text \<open>While \<open>has_receiver_v\<close> is false, a push changes nothing, notifies nobody and throws
  nothing.\<close>

lemma push_without_receiver:
  "\<not> has_receiver_v s \<Longrightarrow>
   channel_push x s = Inr (s, no_notification) \<and> sender_push x s = Inr (s, no_notification)"
  by (simp add: channel_push_def sender_push_def)

text \<open>A receiver that is attached starts from the same state whatever was pushed before.\<close>

lemma receiver_ctor_state:
  assumes "receiver_ctor (producer_run pre (channel_state_ctor hr)) = Inr (s, iterator)"
  shows "s = channel_state_ctor False\<lparr>has_receiver_v := True\<rparr> \<and> iterator = At 0"
proof -
  let ?s0 = "producer_run pre (channel_state_ctor hr)"
  have nr: "\<not> has_receiver_v ?s0" and nc: "\<not> is_closed_v ?s0"
    and s: "s = ?s0\<lparr>has_receiver_v := True\<rparr>" and it: "iterator = last_it ?s0"
    using assms by (auto simp: receiver_ctor_cases split: if_splits)
  have "\<not> hr" using nr by (simp add: producer_run_has_receiver channel_state_ctor_def Let_def)
  then have f: "\<not> has_receiver_v (channel_state_ctor hr :: 'a channel_state)"
    by (simp add: channel_state_ctor_def Let_def)
  from producer_run_no_receiver [OF f, of pre]
  have d: "data ?s0 = fl_init None" and l: "last_it ?s0 = At 0"
    by (simp_all add: channel_state_ctor_def Let_def fl_begin_def fl_init_def)
  have "?s0\<lparr>has_receiver_v := True\<rparr> = channel_state_ctor False\<lparr>has_receiver_v := True\<rparr>"
    using d l nc by (simp add: channel_state_ctor_def Let_def fl_begin_def fl_init_def)
  then show ?thesis using s it l by simp
qed

text \<open>
  C4. The claim holds of every state in which \<open>has_receiver_v\<close> is false. The constructor
  of the state leaves that member uninitialised: on a new channel whose member holds true,
  a push is not dropped. It appends the value to the queue, moves the tail cursor and
  notifies a waiter, though no receiver is attached.
\<close>

theorem push_uninitialised_flag:
  "channel_push (1::nat) (channel_state_ctor True) =
     Inr (\<lparr>has_receiver_v = True, is_closed_v = False,
           data = \<lparr>nodes = [(0, None), (1, Some 1)], allocated = 2\<rparr>, last_it = At 1\<rparr>,
          notify_one) \<and>
   sender_push (1::nat) (channel_state_ctor True) =
     Inr (\<lparr>has_receiver_v = True, is_closed_v = False,
           data = \<lparr>nodes = [(0, None), (1, Some 1)], allocated = 2\<rparr>, last_it = At 1\<rparr>,
          notify_one)"
  by (simp add: channel_push_def sender_push_def channel_state_ctor_def Let_def fl_init_def
      fl_begin_def insert_after_def incr_def)

section \<open>Closing is idempotent and final\<close>

lemma producer_step_closed:
  "is_closed_v s \<Longrightarrow> is_closed_v (snd (producer_step e s))"
  by (cases e)
    (auto simp: producer_step_def channel_push_def sender_push_def channel_close_def
      sender_close_def channel_closer_close_def sender_ctor_def split: sum.splits)

lemma producer_run_closed:
  "is_closed_v s \<Longrightarrow> is_closed_v (producer_run ps s)"
  by (induction ps arbitrary: s) (simp_all add: producer_step_closed)

lemma step_closed:
  "is_closed_v s \<Longrightarrow> is_closed_v (snd (snd (step e (iterator, s))))"
proof (cases e)
  case (Producer p)
  assume "is_closed_v s"
  from producer_step_closed [OF this, of p] show ?thesis using Producer
    by (cases "producer_step p s") (simp add: step_def)
next
  case Get_receiver
  assume "is_closed_v s"
  then show ?thesis using Get_receiver
    by (auto simp: step_def receiver_ctor_cases)
next
  case Next
  assume "is_closed_v s"
  then show ?thesis using Next
    by (auto simp: step_def receiver_next_def split: sum.splits option.splits bool.splits)
next
  case Peek
  assume "is_closed_v s"
  then show ?thesis using Peek
    by (auto simp: step_def receiver_peek_def split: sum.splits)
qed

lemma final_closed:
  "is_closed_v s \<Longrightarrow> is_closed_v (snd (final es (iterator, s)))"
proof (induction es arbitrary: iterator s)
  case Nil
  then show ?case by simp
next
  case (Cons e es)
  obtain ob iterator' s' where st: "step e (iterator, s) = (ob, iterator', s')"
    by (cases "step e (iterator, s)") auto
  with step_closed [OF Cons.prems, of e iterator] have "is_closed_v s'" by simp
  from Cons.IH [OF this, of iterator'] st show ?case by simp
qed

lemma closes_run:
  "set cs \<subseteq> {Channel_close, Sender_close, Closer_close} \<Longrightarrow> cs \<noteq> [] \<Longrightarrow>
   producer_run cs s = s\<lparr>is_closed_v := True\<rparr>"
proof (induction cs arbitrary: s)
  case Nil
  then show ?case by simp
next
  case (Cons c cs)
  have 1: "snd (producer_step c s) = s\<lparr>is_closed_v := True\<rparr>"
    using Cons.prems(1)
    by (auto simp: producer_step_def channel_close_def sender_close_def channel_closer_close_def)
  show ?case
  proof (cases "cs = []")
    case True
    then show ?thesis using 1 by simp
  next
    case False
    from Cons.IH [OF _ False, of "s\<lparr>is_closed_v := True\<rparr>"] Cons.prems(1) 1
    show ?thesis by simp
  qed
qed

text \<open>
  C5. Any non-empty sequence of closes, through the channel, a sender or a closer in any
  mix, leaves the state that a single close leaves: the state with the flag set and nothing
  else changed. A close throws nothing and notifies all waiters. Once the flag is set,
  it stays set through every run of the other operations, those of the receiver included.
\<close>

theorem close_idempotent_monotonic:
  "(set cs \<subseteq> {Channel_close, Sender_close, Closer_close} \<and> cs \<noteq> [] \<longrightarrow>
      producer_run cs s = fst (channel_close s) \<and> is_closed_v (producer_run cs s)) \<and>
   (c \<in> {Channel_close, Sender_close, Closer_close} \<longrightarrow>
      producer_step c s = (Returned notify_all, s\<lparr>is_closed_v := True\<rparr>)) \<and>
   (is_closed_v s \<longrightarrow>
      is_closed_v (producer_run ps s) \<and> is_closed_v (snd (final es (iterator, s))))"
proof -
  have "producer_step c s = (Returned notify_all, s\<lparr>is_closed_v := True\<rparr>)"
    if "c \<in> {Channel_close, Sender_close, Closer_close}"
    using that
    by (auto simp: producer_step_def channel_close_def sender_close_def channel_closer_close_def)
  then show ?thesis
    using closes_run [of cs s] producer_run_closed [of s ps] final_closed [of s es iterator]
    by (simp add: channel_close_def)
qed

theorem close_idempotent_monotonic_witness:
  "set [Sender_close, Closer_close, Channel_close, Sender_close :: nat producer_event]
     \<subseteq> {Channel_close, Sender_close, Closer_close} \<and>
   [Sender_close, Closer_close, Channel_close, Sender_close :: nat producer_event] \<noteq> [] \<and>
   producer_run [Sender_close, Closer_close, Channel_close, Sender_close]
       (channel_state_ctor False :: nat channel_state)
     = fst (channel_close (channel_state_ctor False)) \<and>
   (Closer_close :: nat producer_event) \<in> {Channel_close, Sender_close, Closer_close} \<and>
   producer_step Closer_close (channel_state_ctor False :: nat channel_state)
     = (Returned notify_all, channel_state_ctor False\<lparr>is_closed_v := True\<rparr>) \<and>
   is_closed_v (fst (channel_close (channel_state_ctor False :: nat channel_state))) \<and>
   is_closed_v (producer_run [Sender_push 1, Get_sender]
       (fst (channel_close (channel_state_ctor False :: nat channel_state)))) \<and>
   is_closed_v (snd (final [Get_receiver, Producer (Channel_push 2), Next, Peek]
       (At 0, fst (channel_close (channel_state_ctor False :: nat channel_state)))))"
proof -
  let ?s = "channel_state_ctor False :: nat channel_state"
  let ?cs = "[Sender_close, Closer_close, Channel_close, Sender_close] :: nat producer_event list"
  have h1: "set ?cs \<subseteq> {Channel_close, Sender_close, Closer_close} \<and> ?cs \<noteq> []" by simp
  then have h1a: "set ?cs \<subseteq> {Channel_close, Sender_close, Closer_close}"
    and h1b: "?cs \<noteq> []" by (rule conjunct1, rule conjunct2)
  have h2: "(Closer_close :: nat producer_event) \<in> {Channel_close, Sender_close, Closer_close}"
    by simp
  have h3: "is_closed_v (fst (channel_close ?s))" by (simp add: channel_close_def)
  from close_idempotent_monotonic [of ?cs ?s Closer_close] h1 h2
  have a: "producer_run ?cs ?s = fst (channel_close ?s)"
    and b: "producer_step Closer_close ?s = (Returned notify_all, ?s\<lparr>is_closed_v := True\<rparr>)"
    by blast+
  from close_idempotent_monotonic [of "[]" "fst (channel_close ?s)" Get_sender
      "[Sender_push 1, Get_sender]" "[Get_receiver, Producer (Channel_push 2), Next, Peek]" "At 0"] h3
  have c: "is_closed_v (producer_run [Sender_push 1, Get_sender] (fst (channel_close ?s)))"
    and d: "is_closed_v (snd (final [Get_receiver, Producer (Channel_push 2), Next, Peek]
       (At 0, fst (channel_close ?s))))"
    by blast+
  show ?thesis by (intro conjI) (rule h1a h1b a h2 b h3 c d)+
qed

section \<open>Creating a sender\<close>

text \<open>
  C6. On a channel whose state is closed, \<open>get_sender\<close> throws \<open>channel_already_closed\<close>.
  On a channel whose state is not closed it returns a sender that points to the state of the
  channel; the state is as before, and has one owner more.
\<close>

theorem get_sender_closed:
  assumes "load (channel_state_ptr ch) h = Inr s"
  shows "(is_closed_v s \<longrightarrow>
            sender_ctor s = Inl channel_already_closed \<and>
            get_sender ch h = Inl channel_already_closed) \<and>
         (\<not> is_closed_v s \<longrightarrow>
            sender_ctor s = Inr s \<and>
            get_sender ch h =
              Inr (\<lparr>sender_state_ptr = channel_state_ptr ch\<rparr>, copy_ptr (channel_state_ptr ch) h) \<and>
            load (channel_state_ptr ch) (copy_ptr (channel_state_ptr ch) h) = Inr s \<and>
            use_count (channel_state_ptr ch) (copy_ptr (channel_state_ptr ch) h)
              = Suc (use_count (channel_state_ptr ch) h))"
  using assms
  by (simp add: get_sender_def sender_ctor_def store_same load_copy_ptr use_count_copy_ptr)

theorem get_sender_closed_witness:
  "load (channel_state_ptr \<lparr>channel_state_ptr = Some 0\<rparr>)
       \<lparr>cells = [0 \<mapsto> \<lparr>object = channel_state_ctor False, owners = 1\<rparr>], next_address = 1\<rparr>
     = Inr (channel_state_ctor False :: nat channel_state) \<and>
   \<not> is_closed_v (channel_state_ctor False :: nat channel_state) \<and>
   get_sender \<lparr>channel_state_ptr = Some 0\<rparr>
       \<lparr>cells = [0 \<mapsto> \<lparr>object = channel_state_ctor False :: nat channel_state, owners = 1\<rparr>],
        next_address = 1\<rparr>
     = Inr (\<lparr>sender_state_ptr = Some 0\<rparr>,
            copy_ptr (Some 0)
              \<lparr>cells = [0 \<mapsto> \<lparr>object = channel_state_ctor False, owners = 1\<rparr>],
               next_address = 1\<rparr>) \<and>
   load (channel_state_ptr \<lparr>channel_state_ptr = Some 0\<rparr>)
       \<lparr>cells = [0 \<mapsto> \<lparr>object = fst (channel_close (channel_state_ctor False)), owners = 1\<rparr>],
        next_address = 1\<rparr>
     = Inr (fst (channel_close (channel_state_ctor False)) :: nat channel_state) \<and>
   is_closed_v (fst (channel_close (channel_state_ctor False :: nat channel_state))) \<and>
   get_sender \<lparr>channel_state_ptr = Some 0\<rparr>
       \<lparr>cells = [0 \<mapsto> \<lparr>object = fst (channel_close (channel_state_ctor False :: nat channel_state)),
                       owners = 1\<rparr>],
        next_address = 1\<rparr>
     = Inl channel_already_closed"
proof -
  let ?ch = "\<lparr>channel_state_ptr = Some 0\<rparr>"
  let ?open = "channel_state_ctor False :: nat channel_state"
  let ?closed = "fst (channel_close (channel_state_ctor False)) :: nat channel_state"
  let ?h = "\<lparr>cells = [0 \<mapsto> \<lparr>object = ?open, owners = 1\<rparr>], next_address = 1\<rparr>"
  let ?k = "\<lparr>cells = [0 \<mapsto> \<lparr>object = ?closed, owners = 1\<rparr>], next_address = 1\<rparr>"
  have h1: "load (channel_state_ptr ?ch) ?h = Inr ?open" by (simp add: load_def)
  have h2: "\<not> is_closed_v ?open" by (simp add: channel_state_ctor_def Let_def)
  have k1: "load (channel_state_ptr ?ch) ?k = Inr ?closed" by (simp add: load_def)
  have k2: "is_closed_v ?closed" by (simp add: channel_close_def)
  from get_sender_closed [OF h1] h2
  have a: "get_sender ?ch ?h = Inr (\<lparr>sender_state_ptr = Some 0\<rparr>, copy_ptr (Some 0) ?h)"
    by simp
  from get_sender_closed [OF k1] k2
  have b: "get_sender ?ch ?k = Inl channel_already_closed"
    by blast
  show ?thesis by (intro conjI) (rule h1 h2 a k1 k2 b)+
qed

section \<open>Connecting to a scheduler\<close>

text \<open>
  C7. Let the closer point to a live channel state and the thread be joinable. On a halted
  scheduler, \<open>connect\<close> closes the closer's channel and joins the thread before it returns,
  and returns the scheduler as it was: the pair is not stored. On a running scheduler it
  puts the thread and the closer in front of the stored ones; it neither closes the channel,
  whose state is as before, nor joins the thread, which is still joinable. Storing a copy
  of the closer gives the channel state one owner more; storing the moved closer does not.
  A scheduler is halted once \<open>halt\<close> has returned, and \<open>connect\<close> leaves a halted scheduler
  halted.
\<close>

theorem connect_after_halt:
  assumes "load (reference_counter closer) (heap w) = Inr s"
    and "th \<in> joinable w"
  shows "(scheduler_is_closed_v sch \<longrightarrow>
            connect th closer sch w =
              Inr (sch,
                   w\<lparr>heap := store (reference_counter closer) (s\<lparr>is_closed_v := True\<rparr>) (heap w),
                     joinable := joinable w - {th},
                     joined := joined w @ [th]\<rparr>) \<and>
            connect_move th closer sch w = connect th closer sch w \<and>
            load (reference_counter closer)
                (store (reference_counter closer) (s\<lparr>is_closed_v := True\<rparr>) (heap w))
              = Inr (s\<lparr>is_closed_v := True\<rparr>)) \<and>
         (\<not> scheduler_is_closed_v sch \<longrightarrow>
            connect th closer sch w =
              Inr (sch\<lparr>threads := th # threads sch, closers := closer # closers sch\<rparr>,
                   w\<lparr>heap := copy_ptr (reference_counter closer) (heap w)\<rparr>) \<and>
            connect_move th closer sch w =
              Inr (sch\<lparr>threads := th # threads sch, closers := closer # closers sch\<rparr>, w) \<and>
            load (reference_counter closer) (copy_ptr (reference_counter closer) (heap w)) = Inr s \<and>
            use_count (reference_counter closer) (copy_ptr (reference_counter closer) (heap w))
              = Suc (use_count (reference_counter closer) (heap w))) \<and>
         (halt sch0 w0 = Inr (sch1, w1) \<longrightarrow>
            scheduler_is_closed_v sch1 \<and> closers sch1 = closers sch0 \<and>
            threads sch1 = threads sch0)"
proof -
  have c: "channel_closer_close_call closer (heap w)
      = Inr (notify_all, store (reference_counter closer) (s\<lparr>is_closed_v := True\<rparr>) (heap w))"
    using assms(1) by (simp add: channel_closer_close_call_def channel_closer_close_def)
  have c1: "connect th closer sch w =
      Inr (sch,
           w\<lparr>heap := store (reference_counter closer) (s\<lparr>is_closed_v := True\<rparr>) (heap w),
             joinable := joinable w - {th},
             joined := joined w @ [th]\<rparr>)"
    and m1: "connect_move th closer sch w = connect th closer sch w"
    if "scheduler_is_closed_v sch"
    using that c assms(2) by (simp_all add: connect_def connect_move_def thread_join_def)
  have c2: "connect th closer sch w =
      Inr (sch\<lparr>threads := th # threads sch, closers := closer # closers sch\<rparr>,
           w\<lparr>heap := copy_ptr (reference_counter closer) (heap w)\<rparr>)"
    and m2: "connect_move th closer sch w =
      Inr (sch\<lparr>threads := th # threads sch, closers := closer # closers sch\<rparr>, w)"
    if "\<not> scheduler_is_closed_v sch"
    using that by (simp_all add: connect_def connect_move_def)
  have c3: "scheduler_is_closed_v sch1 \<and> closers sch1 = closers sch0 \<and> threads sch1 = threads sch0"
    if "halt sch0 w0 = Inr (sch1, w1)"
    using that by (auto simp: halt_def split: sum.splits)
  have c4: "load (reference_counter closer) (copy_ptr (reference_counter closer) (heap w)) = Inr s"
    using assms(1) by (simp add: load_copy_ptr)
  note c5 = use_count_copy_ptr [OF assms(1)]
  show ?thesis using c1 m1 c2 m2 c3 c4 c5 load_store [OF assms(1)] by blast
qed

theorem connect_after_halt_witness:
  "load (reference_counter \<lparr>reference_counter = Some 0\<rparr>)
       (heap \<lparr>heap = \<lparr>cells = [0 \<mapsto> \<lparr>object = channel_state_ctor False, owners = 2\<rparr>],
                     next_address = 1\<rparr>,
             joinable = {7}, joined = []\<rparr>)
     = Inr (channel_state_ctor False :: nat channel_state) \<and>
   (7::nat) \<in> joinable \<lparr>heap = \<lparr>cells = [0 \<mapsto> \<lparr>object = channel_state_ctor False :: nat channel_state,
                                               owners = 2\<rparr>],
                     next_address = 1\<rparr>,
             joinable = {7}, joined = []\<rparr> \<and>
   halt scheduler_ctor
       \<lparr>heap = \<lparr>cells = [0 \<mapsto> \<lparr>object = channel_state_ctor False :: nat channel_state, owners = 2\<rparr>],
                next_address = 1\<rparr>,
        joinable = {7}, joined = []\<rparr>
     = Inr (scheduler_ctor\<lparr>scheduler_is_closed_v := True\<rparr>,
            \<lparr>heap = \<lparr>cells = [0 \<mapsto> \<lparr>object = channel_state_ctor False, owners = 2\<rparr>],
                     next_address = 1\<rparr>,
             joinable = {7}, joined = []\<rparr>) \<and>
   scheduler_is_closed_v (scheduler_ctor\<lparr>scheduler_is_closed_v := True\<rparr>) \<and>
   connect 7 \<lparr>reference_counter = Some 0\<rparr> (scheduler_ctor\<lparr>scheduler_is_closed_v := True\<rparr>)
       \<lparr>heap = \<lparr>cells = [0 \<mapsto> \<lparr>object = channel_state_ctor False :: nat channel_state, owners = 2\<rparr>],
                next_address = 1\<rparr>,
        joinable = {7}, joined = []\<rparr>
     = Inr (scheduler_ctor\<lparr>scheduler_is_closed_v := True\<rparr>,
            \<lparr>heap = \<lparr>cells = [0 \<mapsto> \<lparr>object = channel_state_ctor False\<lparr>is_closed_v := True\<rparr>,
                                   owners = 2\<rparr>],
                     next_address = 1\<rparr>,
             joinable = {}, joined = [7]\<rparr>) \<and>
   \<not> scheduler_is_closed_v scheduler_ctor \<and>
   connect 7 \<lparr>reference_counter = Some 0\<rparr> scheduler_ctor
       \<lparr>heap = \<lparr>cells = [0 \<mapsto> \<lparr>object = channel_state_ctor False :: nat channel_state, owners = 2\<rparr>],
                next_address = 1\<rparr>,
        joinable = {7}, joined = []\<rparr>
     = Inr (\<lparr>closers = [\<lparr>reference_counter = Some 0\<rparr>], threads = [7],
             scheduler_is_closed_v = False\<rparr>,
            \<lparr>heap = \<lparr>cells = [0 \<mapsto> \<lparr>object = channel_state_ctor False, owners = 3\<rparr>],
                     next_address = 1\<rparr>,
             joinable = {7}, joined = []\<rparr>) \<and>
   connect_move 7 \<lparr>reference_counter = Some 0\<rparr> scheduler_ctor
       \<lparr>heap = \<lparr>cells = [0 \<mapsto> \<lparr>object = channel_state_ctor False :: nat channel_state, owners = 2\<rparr>],
                next_address = 1\<rparr>,
        joinable = {7}, joined = []\<rparr>
     = Inr (\<lparr>closers = [\<lparr>reference_counter = Some 0\<rparr>], threads = [7],
             scheduler_is_closed_v = False\<rparr>,
            \<lparr>heap = \<lparr>cells = [0 \<mapsto> \<lparr>object = channel_state_ctor False, owners = 2\<rparr>],
                     next_address = 1\<rparr>,
             joinable = {7}, joined = []\<rparr>)"
proof -
  let ?c = "\<lparr>reference_counter = Some 0\<rparr>"
  let ?open = "channel_state_ctor False :: nat channel_state"
  let ?w = "\<lparr>heap = \<lparr>cells = [0 \<mapsto> \<lparr>object = ?open, owners = 2\<rparr>], next_address = 1\<rparr>,
             joinable = {7}, joined = []\<rparr>"
  let ?halted = "scheduler_ctor\<lparr>scheduler_is_closed_v := True\<rparr>"
  have h1: "load (reference_counter ?c) (heap ?w) = Inr ?open" by (simp add: load_def)
  have h2: "(7::nat) \<in> joinable ?w" by simp
  have h3: "halt scheduler_ctor ?w = Inr (?halted, ?w)"
    by (simp add: halt_def scheduler_ctor_def)
  have h4: "scheduler_is_closed_v ?halted" by simp
  have h5: "\<not> scheduler_is_closed_v scheduler_ctor" by (simp add: scheduler_ctor_def)
  note t = connect_after_halt [OF h1 h2]
  from t [of ?halted scheduler_ctor ?w ?halted ?w] h3 h4
  have a: "connect 7 ?c ?halted ?w
     = Inr (?halted,
            \<lparr>heap = \<lparr>cells = [0 \<mapsto> \<lparr>object = ?open\<lparr>is_closed_v := True\<rparr>, owners = 2\<rparr>],
                     next_address = 1\<rparr>,
             joinable = {}, joined = [7]\<rparr>)"
    by (simp add: store_def)
  from t [of scheduler_ctor scheduler_ctor ?w ?halted ?w] h5
  have b: "connect 7 ?c scheduler_ctor ?w
     = Inr (\<lparr>closers = [?c], threads = [7], scheduler_is_closed_v = False\<rparr>,
            \<lparr>heap = \<lparr>cells = [0 \<mapsto> \<lparr>object = ?open, owners = 3\<rparr>], next_address = 1\<rparr>,
             joinable = {7}, joined = []\<rparr>)"
    and b': "connect_move 7 ?c scheduler_ctor ?w
     = Inr (\<lparr>closers = [?c], threads = [7], scheduler_is_closed_v = False\<rparr>, ?w)"
    by (simp_all add: scheduler_ctor_def copy_ptr_def eval_nat_numeral)
  show ?thesis by (intro conjI) (rule h1 h2 h3 h4 a h5 b b')+
qed

section \<open>The shape of the queue\<close>

lemma chan_wf_ctor: "chan_wf (channel_state_ctor hr)"
  by (simp add: chan_wf_def fl_wf_def channel_state_ctor_def Let_def fl_init_def fl_begin_def)

lemma chan_wf_tail:
  assumes "chan_wf s"
  shows "last_it s = At (fst (List.last (nodes (data s)))) \<and>
         incr (last_it s) (data s) = Inr Past_end"
proof -
  have ne: "nodes (data s) \<noteq> []" and d: "distinct (map fst (nodes (data s)))"
    and l: "last_it s = At (fst (List.last (nodes (data s))))"
    using assms by (simp_all add: chan_wf_def fl_wf_def)
  then show ?thesis using successor_of_last [OF ne d] by (simp add: incr_def)
qed

lemma producer_step_queue:
  assumes "chan_wf s"
  shows "chan_wf (snd (producer_step e s)) \<and>
         map snd (nodes (data (snd (producer_step e s))))
           = map snd (nodes (data s)) @ map Some (kept_by e s)"
proof -
  have push: "\<exists>s' n. channel_push x s = Inr (s', n) \<and> chan_wf s' \<and>
      map snd (nodes (data s'))
        = map snd (nodes (data s)) @ map Some (if has_receiver_v s then [x] else [])" for x
  proof (cases "has_receiver_v s")
    case True
    let ?s' = "s\<lparr>data := \<lparr>nodes = nodes (data s) @ [(allocated (data s), Some x)],
                    allocated = Suc (allocated (data s))\<rparr>,
           last_it := At (allocated (data s))\<rparr>"
    have p: "channel_push x s = Inr (?s', notify_one)" by (rule push_appends [OF assms True])
    have "chan_wf ?s'" using assms by (auto simp: chan_wf_def fl_wf_def less_Suc_eq)
    then show ?thesis using p True by simp
  next
    case False
    then show ?thesis using assms by (simp add: channel_push_def)
  qed
  show ?thesis
  proof (cases e)
    case (Channel_push x)
    from push [of x] show ?thesis using Channel_push
      by (auto simp: producer_step_def kept_by_def)
  next
    case (Sender_push x)
    from push [of x] show ?thesis using Sender_push
      by (auto simp: producer_step_def kept_by_def sender_push_eq)
  next
    case Channel_close
    then show ?thesis using assms
      by (simp add: producer_step_def channel_close_def chan_wf_def kept_by_def)
  next
    case Sender_close
    then show ?thesis using assms
      by (simp add: producer_step_def sender_close_def chan_wf_def kept_by_def)
  next
    case Closer_close
    then show ?thesis using assms
      by (simp add: producer_step_def channel_closer_close_def chan_wf_def kept_by_def)
  next
    case Get_sender
    then show ?thesis using assms
      by (simp add: producer_step_def sender_ctor_def kept_by_def)
  qed
qed

lemma producer_run_queue:
  assumes "chan_wf s"
  shows "chan_wf (producer_run ps s) \<and>
         map snd (nodes (data (producer_run ps s)))
           = map snd (nodes (data s)) @ map Some (producer_kept ps s)"
  using assms
proof (induction ps arbitrary: s)
  case Nil
  then show ?case by simp
next
  case (Cons e ps)
  from producer_step_queue [OF Cons.prems, of e]
  have w: "chan_wf (snd (producer_step e s))"
    and m: "map snd (nodes (data (snd (producer_step e s))))
           = map snd (nodes (data s)) @ map Some (kept_by e s)"
    by simp_all
  from Cons.IH [OF w] m show ?case by simp
qed

lemma producer_kept_no_receiver: "\<not> has_receiver_v s \<Longrightarrow> producer_kept ps s = []"
  by (induction ps arbitrary: s) (simp_all add: producer_step_has_receiver kept_by_def
      split: producer_event.splits)

lemma kept_attached: "attached iterator s \<Longrightarrow> kept es (iterator, s) = pushed es"
proof (induction es arbitrary: iterator s)
  case Nil
  then show ?case by (simp add: pushed_def)
next
  case (Cons e es)
  let ?c = "snd (step e (iterator, s))"
  from step_attached [OF Cons.prems, of e] have "attached (fst ?c) (snd ?c)" by simp
  from Cons.IH [OF this] have ih: "kept es ?c = pushed es" by simp
  have "has_receiver_v s" using Cons.prems by (simp add: attached_def)
  then have "(case e of Producer p \<Rightarrow> kept_by p (snd (iterator, s)) | _ \<Rightarrow> []) = pushed_by e"
    by (simp add: kept_by_def pushed_by_def split: event.splits producer_event.splits)
  then have "kept (e # es) (iterator, s) = pushed_by e @ kept es ?c" by simp
  then show ?case using ih by (simp add: pushed_def)
qed

text \<open>
  C8, as the claim states it, fails: a push on a channel whose \<open>has_receiver_v\<close> is
  false is dropped, so after one push and no call of \<open>next\<close> the queue still has one
  slot, not two.
\<close>

theorem queue_length_counterexample:
  "producer_run [Channel_push (5::nat)] (channel_state_ctor False) = channel_state_ctor False \<and>
   length (nodes (data (producer_run [Channel_push (5::nat)] (channel_state_ctor False)))) = 1 \<and>
   length (pushed [Producer (Channel_push (5::nat))]) - 0 + 1 = 2 \<and>
   length (nodes (data (producer_run [Channel_push (5::nat)] (channel_state_ctor False))))
     \<noteq> length (pushed [Producer (Channel_push (5::nat))]) - 0 + 1"
  by (simp add: producer_step_def channel_push_def channel_state_ctor_def Let_def fl_init_def
      pushed_def pushed_by_def)

text \<open>
  C8, amended in what it counts: the pushed items are those pushed while \<open>has_receiver_v\<close>
  was set, the others being dropped. The queue of every new channel is one empty slot. On
  every channel, whatever its flag holds, after every run of pushes, closes and sender
  creations without receiver, and after every run that follows the attachment of the
  receiver: the tail cursor is on the last node, with nothing behind it; the slots behind
  the first hold, oldest first, the values pushed while the flag was set and not yet
  returned by \<open>next\<close>; and the length of the queue is the number of those pushed values,
  minus the number \<open>next\<close> returned, plus one. Before the receiver is attached nothing has
  been returned, and the first slot is the empty one; once it is attached, every push
  counts, and the receiver's iterator is on the first node.
\<close>

theorem queue_invariant:
  "nodes (data (channel_state_ctor hr :: 'a channel_state)) = [(0, None)] \<and>
   last_it (producer_run ps (channel_state_ctor hr :: 'a channel_state))
     = At (fst (List.last (nodes (data (producer_run ps (channel_state_ctor hr)))))) \<and>
   incr (last_it (producer_run ps (channel_state_ctor hr :: 'a channel_state)))
       (data (producer_run ps (channel_state_ctor hr)))
     = Inr Past_end \<and>
   map snd (nodes (data (producer_run ps (channel_state_ctor hr :: 'a channel_state))))
     = None # map Some (producer_kept ps (channel_state_ctor hr)) \<and>
   int (length (nodes (data (producer_run ps (channel_state_ctor hr :: 'a channel_state)))))
     = int (length (producer_kept ps (channel_state_ctor hr :: 'a channel_state))) - 0 + 1 \<and>
   (receiver_ctor (producer_run ps (channel_state_ctor hr)) = Inr (s, iterator) \<and>
    final es (iterator, s) = (iterator', s') \<and>
    received (observed es (iterator, s)) = rs \<longrightarrow>
      last_it s' = At (fst (List.last (nodes (data s')))) \<and>
      incr (last_it s') (data s') = Inr Past_end \<and>
      iterator' = fl_begin (data s') \<and>
      kept es (iterator, s) = pushed es \<and>
      map snd (tl (nodes (data s')))
        = map Some (drop (length rs)
            (producer_kept ps (channel_state_ctor hr) @ kept es (iterator, s))) \<and>
      int (length (nodes (data s')))
        = int (length (producer_kept ps (channel_state_ctor hr :: 'a channel_state)
                       @ kept es (iterator, s)))
          - int (length rs) + 1)"
proof -
  let ?c = "channel_state_ctor hr :: 'a channel_state"
  have n0: "nodes (data ?c) = [(0, None)]"
    by (simp add: channel_state_ctor_def Let_def fl_init_def)
  from producer_run_queue [OF chan_wf_ctor, of ps hr]
  have w: "chan_wf (producer_run ps ?c)"
    and m: "map snd (nodes (data (producer_run ps ?c))) = None # map Some (producer_kept ps ?c)"
    using n0 by simp_all
  note t = chan_wf_tail [OF w]
  have "length (map snd (nodes (data (producer_run ps ?c))))
      = length (None # map Some (producer_kept ps ?c))"
    using m by simp
  then have len: "int (length (nodes (data (producer_run ps ?c))))
      = int (length (producer_kept ps ?c)) - 0 + 1"
    by simp
  have after: "last_it s' = At (fst (List.last (nodes (data s')))) \<and>
      incr (last_it s') (data s') = Inr Past_end \<and>
      iterator' = fl_begin (data s') \<and>
      kept es (iterator, s) = pushed es \<and>
      map snd (tl (nodes (data s')))
        = map Some (drop (length rs) (producer_kept ps ?c @ kept es (iterator, s))) \<and>
      int (length (nodes (data s')))
        = int (length (producer_kept ps ?c @ kept es (iterator, s))) - int (length rs) + 1"
    if h: "receiver_ctor (producer_run ps ?c) = Inr (s, iterator)"
      "final es (iterator, s) = (iterator', s')"
      "received (observed es (iterator, s)) = rs"
  proof -
    from receiver_ctor_fresh [OF h(1)]
    have a: "attached iterator s" and u: "unread s = []" and nhr: "\<not> hr"
      by blast+
    have "\<not> has_receiver_v ?c" using nhr by (simp add: channel_state_ctor_def Let_def)
    then have k0: "producer_kept ps ?c = []" by (rule producer_kept_no_receiver)
    have k: "kept es (iterator, s) = pushed es" by (rule kept_attached [OF a])
    from run_attached [OF a, of es] h(2,3) u
    have a': "attached iterator' s'" and eq: "map Some rs @ unread s' = map Some (pushed es)"
      by simp_all
    have wf: "chan_wf s'" and i: "iterator' = fl_begin (data s')"
      using a' by (simp_all add: attached_def)
    have ne: "nodes (data s') \<noteq> []" using wf by (simp add: chan_wf_def)
    from eq have "drop (length (map Some rs)) (map Some rs @ unread s')
        = drop (length (map Some rs)) (map Some (pushed es))"
      by simp
    then have o: "unread s' = map Some (drop (length rs) (pushed es))"
      by (simp add: drop_map)
    from eq have "length (map Some rs @ unread s') = length (map Some (pushed es))" by simp
    then have "length rs + length (unread s') = length (pushed es)" by simp
    moreover have "length (nodes (data s')) = Suc (length (unread s'))"
      using ne by (simp add: unread_def)
    ultimately have c: "int (length (nodes (data s')))
        = int (length (pushed es)) - int (length rs) + 1"
      by simp
    have o': "map snd (tl (nodes (data s')))
        = map Some (drop (length rs) (producer_kept ps ?c @ kept es (iterator, s)))"
      using o k k0 by (simp add: unread_def)
    have c': "int (length (nodes (data s')))
        = int (length (producer_kept ps ?c @ kept es (iterator, s))) - int (length rs) + 1"
      using c k k0 by simp
    show ?thesis using chan_wf_tail [OF wf] i k o' c' by blast
  qed
  show ?thesis using n0 t m len after by blast
qed

theorem queue_invariant_witness:
  "receiver_ctor (producer_run [Channel_push 9, Sender_push 8] (channel_state_ctor False))
     = Inr (channel_state_ctor False\<lparr>has_receiver_v := True\<rparr> :: nat channel_state, At 0) \<and>
   final [Producer (Sender_push (4::nat)), Producer (Channel_push 5), Next, Producer (Sender_push 6)]
       (At 0, channel_state_ctor False\<lparr>has_receiver_v := True\<rparr>)
     = (At 1, \<lparr>has_receiver_v = True, is_closed_v = False,
              data = \<lparr>nodes = [(1, Some 4), (2, Some 5), (3, Some 6)], allocated = 4\<rparr>,
              last_it = At 3\<rparr>) \<and>
   received (observed
       [Producer (Sender_push (4::nat)), Producer (Channel_push 5), Next, Producer (Sender_push 6)]
       (At 0, channel_state_ctor False\<lparr>has_receiver_v := True\<rparr>)) = [4] \<and>
   incr (At 3) \<lparr>nodes = [(1, Some (4::nat)), (2, Some 5), (3, Some 6)], allocated = 4\<rparr>
     = Inr Past_end \<and>
   kept [Producer (Sender_push (4::nat)), Producer (Channel_push 5), Next, Producer (Sender_push 6)]
       (At 0, channel_state_ctor False\<lparr>has_receiver_v := True\<rparr>) = [4, 5, 6] \<and>
   producer_kept [Channel_push 9, Sender_push 8] (channel_state_ctor False :: nat channel_state)
     = [] \<and>
   int (length [(1::nat, Some (4::nat)), (2, Some 5), (3, Some 6)])
     = int (length ([] @ [4, 5, 6 :: nat])) - int (length [4::nat]) + 1 \<and>
   map snd (nodes (data (producer_run [Channel_push 9, Sender_push 8]
       (channel_state_ctor True :: nat channel_state))))
     = None # map Some (producer_kept [Channel_push 9, Sender_push 8]
         (channel_state_ctor True :: nat channel_state)) \<and>
   producer_kept [Channel_push 9, Sender_push 8] (channel_state_ctor True :: nat channel_state)
     = [9, 8]"
proof -
  let ?init = "channel_state_ctor False\<lparr>has_receiver_v := True\<rparr> :: nat channel_state"
  let ?now = "\<lparr>has_receiver_v = True, is_closed_v = False,
              data = \<lparr>nodes = [(1, Some (4::nat)), (2, Some 5), (3, Some 6)], allocated = 4\<rparr>,
              last_it = At 3\<rparr>"
  let ?es = "[Producer (Sender_push 4), Producer (Channel_push 5), Next, Producer (Sender_push 6)]
    :: nat event list"
  let ?ps = "[Channel_push 9, Sender_push 8] :: nat producer_event list"
  have h1: "receiver_ctor (producer_run ?ps (channel_state_ctor False)) = Inr (?init, At 0)"
    by code_simp
  have h2: "final ?es (At 0, ?init) = (At 1, ?now)"
    by code_simp
  have h3: "received (observed ?es (At 0, ?init)) = [4]"
    by code_simp
  have k: "kept ?es (At 0, ?init) = [4, 5, 6]"
    by code_simp
  have k0: "producer_kept ?ps (channel_state_ctor False :: nat channel_state) = []"
    by code_simp
  have k1: "producer_kept ?ps (channel_state_ctor True :: nat channel_state) = [9, 8]"
    by code_simp
  note t = queue_invariant [of False ?ps ?init "At 0" ?es "At 1" ?now "[4]"]
  from t h1 h2 h3 have p: "incr (last_it ?now) (data ?now) = Inr Past_end" by blast
  from t h1 h2 h3 have c: "int (length (nodes (data ?now)))
      = int (length (producer_kept ?ps (channel_state_ctor False :: nat channel_state)
                     @ kept ?es (At 0, ?init))) - int (length [4::nat]) + 1"
    by blast
  have p': "incr (At 3) \<lparr>nodes = [(1, Some (4::nat)), (2, Some 5), (3, Some 6)], allocated = 4\<rparr>
     = Inr Past_end"
    using p by simp
  have c': "int (length [(1::nat, Some (4::nat)), (2, Some 5), (3, Some 6)])
     = int (length ([] @ [4, 5, 6 :: nat])) - int (length [4::nat]) + 1"
    using c unfolding k k0 by simp
  note u = queue_invariant [of True ?ps ?init "At 0" ?es "At 1" ?now "[4]"]
  from u have m: "map snd (nodes (data (producer_run ?ps (channel_state_ctor True :: nat channel_state))))
     = None # map Some (producer_kept ?ps (channel_state_ctor True :: nat channel_state))"
    by blast
  show ?thesis by (intro conjI) (rule h1 h2 h3 p' k k0 c' m k1)+
qed

section \<open>The peek\<close>

lemma step_head_slot:
  assumes "attached iterator s"
  shows "head_slot (snd (snd (step e (iterator, s)))) =
    (if value_of (fst (step e (iterator, s))) = [] then head_slot s
     else Some (List.last (value_of (fst (step e (iterator, s))))))"
proof (cases e)
  case (Producer p)
  have push: "?thesis" if "e = Producer (Channel_push x) \<or> e = Producer (Sender_push x)" for x
  proof -
    from attached_push [OF assms, of x] obtain s' where
      "channel_push x s = Inr (s', notify_one)" "head_slot s' = head_slot s"
      by blast
    then show ?thesis using that
      by (auto simp: step_def producer_step_def value_of_def sender_push_eq)
  qed
  show ?thesis
  proof (cases p)
    case (Channel_push x)
    then show ?thesis using Producer push by simp
  next
    case (Sender_push x)
    then show ?thesis using Producer push by simp
  next
    case Channel_close
    then show ?thesis using Producer
      by (simp add: step_def producer_step_def channel_close_def head_slot_def value_of_def)
  next
    case Sender_close
    then show ?thesis using Producer
      by (simp add: step_def producer_step_def sender_close_def head_slot_def value_of_def)
  next
    case Closer_close
    then show ?thesis using Producer
      by (simp add: step_def producer_step_def channel_closer_close_def head_slot_def
          value_of_def)
  next
    case Get_sender
    then show ?thesis using Producer
      by (simp add: step_def producer_step_def sender_ctor_def value_of_def)
  qed
next
  case Get_receiver
  have "has_receiver_v s" using assms by (simp add: attached_def)
  then show ?thesis using Get_receiver by (simp add: step_def receiver_ctor_cases value_of_def)
next
  case Next
  show ?thesis
  proof (cases "receiver_next iterator s")
    case (Inl err)
    then show ?thesis using Next by (simp add: step_def value_of_def)
  next
    case (Inr r)
    show ?thesis
    proof (cases r)
      case None
      then show ?thesis using Next Inr by (simp add: step_def value_of_def)
    next
      case (Some t)
      obtain v iterator' s' where t: "t = (v, iterator', s')" by (cases t)
      from attached_next_value [OF assms] Inr Some t have "head_slot s' = Some v" by simp
      then show ?thesis using Next Inr Some t by (simp add: step_def value_of_def)
    qed
  qed
next
  case Peek
  show ?thesis using Peek by (simp add: step_def attached_peek [OF assms] value_of_def)
qed

lemma value_of_cases: "value_of ob = [] \<or> (\<exists>v. value_of ob = [v])"
  by (cases ob) (simp_all add: value_of_def)

lemma run_head_slot:
  assumes "attached iterator s"
  shows "head_slot (snd (final es (iterator, s))) =
    (if received (observed es (iterator, s)) = [] then head_slot s
     else Some (List.last (received (observed es (iterator, s)))))"
  using assms
proof (induction es arbitrary: iterator s)
  case Nil
  then show ?case by (simp add: received_def)
next
  case (Cons e es)
  let ?c = "snd (step e (iterator, s))"
  let ?ob = "fst (step e (iterator, s))"
  from step_attached [OF Cons.prems, of e] have a: "attached (fst ?c) (snd ?c)" by simp
  from Cons.IH [OF a]
  have ih: "head_slot (snd (final es ?c)) =
    (if received (observed es ?c) = [] then head_slot (snd ?c)
     else Some (List.last (received (observed es ?c))))"
    by simp
  have r: "received (observed (e # es) (iterator, s)) = value_of ?ob @ received (observed es ?c)"
    by (simp add: received_def)
  have f: "final (e # es) (iterator, s) = final es ?c" by simp
  from value_of_cases [of ?ob] show ?case
  proof
    assume v: "value_of ?ob = []"
    with step_head_slot [OF Cons.prems, of e] have "head_slot (snd ?c) = head_slot s" by simp
    then show ?thesis unfolding f r using ih v by simp
  next
    assume "\<exists>v. value_of ?ob = [v]"
    then obtain v where v: "value_of ?ob = [v]" ..
    with step_head_slot [OF Cons.prems, of e] have "head_slot (snd ?c) = Some v" by simp
    then show ?thesis unfolding f r using ih v by simp
  qed
qed

text \<open>
  C9. In any configuration that a channel with its receiver reaches, the peek returns the
  optional in the slot under the receiver's iterator, which is the first node of the queue:
  empty as long as no call of \<open>next\<close> has returned, and holding the value that \<open>next\<close>
  returned last afterwards. It throws nothing, and leaves the receiver's iterator and the
  channel state as they were; called on the handle, it leaves the handle and the whole heap
  as they were.
\<close>

theorem peek_frame:
  assumes "receiver_ctor (producer_run pre (channel_state_ctor hr)) = Inr (s0, iterator0)"
    and "final es (iterator0, s0) = (iterator, s)"
  shows "receiver_peek iterator s = (Inr (head_slot s), iterator, s) \<and>
         iterator = fl_begin (data s) \<and>
         head_slot s =
           (if received (observed es (iterator0, s0)) = [] then None
            else Some (List.last (received (observed es (iterator0, s0))))) \<and>
         (load (receiver_state_ptr rc) h = Inr s \<and> iterator_v rc = iterator \<longrightarrow>
            receiver_peek_call rc h = Inr (head_slot s, rc, h))"
proof -
  from receiver_ctor_fresh [OF assms(1)]
  have a0: "attached iterator0 s0" and h0: "head_slot s0 = None" by blast+
  from run_attached [OF a0, of es] assms(2) have a: "attached iterator s" by simp
  have p: "receiver_peek iterator s = (Inr (head_slot s), iterator, s)"
    by (rule attached_peek [OF a])
  have i: "iterator = fl_begin (data s)" using a by (simp add: attached_def)
  have hs: "head_slot s =
           (if received (observed es (iterator0, s0)) = [] then None
            else Some (List.last (received (observed es (iterator0, s0)))))"
    using run_head_slot [OF a0, of es] assms(2) h0 by simp
  have "receiver_peek_call rc h = Inr (head_slot s, rc, h)"
    if "load (receiver_state_ptr rc) h = Inr s" "iterator_v rc = iterator"
    using that p by (simp add: receiver_peek_call_def store_same)
  then show ?thesis using p i hs by blast
qed

theorem peek_frame_witness:
  "receiver_ctor (producer_run [] (channel_state_ctor False))
     = Inr (channel_state_ctor False\<lparr>has_receiver_v := True\<rparr> :: nat channel_state, At 0) \<and>
   final [Producer (Sender_push (4::nat)), Producer (Sender_push 5), Next]
       (At 0, channel_state_ctor False\<lparr>has_receiver_v := True\<rparr>)
     = (At 1, \<lparr>has_receiver_v = True, is_closed_v = False,
              data = \<lparr>nodes = [(1, Some 4), (2, Some 5)], allocated = 3\<rparr>, last_it = At 2\<rparr>) \<and>
   receiver_peek (At 1) \<lparr>has_receiver_v = True, is_closed_v = False,
              data = \<lparr>nodes = [(1, Some (4::nat)), (2, Some 5)], allocated = 3\<rparr>, last_it = At 2\<rparr>
     = (Inr (Some 4), At 1, \<lparr>has_receiver_v = True, is_closed_v = False,
              data = \<lparr>nodes = [(1, Some 4), (2, Some 5)], allocated = 3\<rparr>, last_it = At 2\<rparr>) \<and>
   receiver_peek_call \<lparr>receiver_state_ptr = Some 0, iterator_v = At 1\<rparr>
       \<lparr>cells = [0 \<mapsto> \<lparr>object = \<lparr>has_receiver_v = True, is_closed_v = False,
              data = \<lparr>nodes = [(1, Some (4::nat)), (2, Some 5)], allocated = 3\<rparr>, last_it = At 2\<rparr>,
            owners = 2\<rparr>], next_address = 1\<rparr>
     = Inr (Some 4, \<lparr>receiver_state_ptr = Some 0, iterator_v = At 1\<rparr>,
       \<lparr>cells = [0 \<mapsto> \<lparr>object = \<lparr>has_receiver_v = True, is_closed_v = False,
              data = \<lparr>nodes = [(1, Some (4::nat)), (2, Some 5)], allocated = 3\<rparr>, last_it = At 2\<rparr>,
            owners = 2\<rparr>], next_address = 1\<rparr>)"
proof -
  let ?init = "channel_state_ctor False\<lparr>has_receiver_v := True\<rparr> :: nat channel_state"
  let ?now = "\<lparr>has_receiver_v = True, is_closed_v = False,
              data = \<lparr>nodes = [(1, Some (4::nat)), (2, Some 5)], allocated = 3\<rparr>, last_it = At 2\<rparr>"
  let ?es = "[Producer (Sender_push 4), Producer (Sender_push 5), Next] :: nat event list"
  let ?rc = "\<lparr>receiver_state_ptr = Some 0, iterator_v = At 1\<rparr>"
  let ?h = "\<lparr>cells = [0 \<mapsto> \<lparr>object = ?now, owners = 2\<rparr>], next_address = 1\<rparr>"
  have h1: "receiver_ctor (producer_run [] (channel_state_ctor False)) = Inr (?init, At 0)"
    by code_simp
  have h2: "final ?es (At 0, ?init) = (At 1, ?now)"
    by code_simp
  have h3: "load (receiver_state_ptr ?rc) ?h = Inr ?now \<and> iterator_v ?rc = At 1"
    by (simp add: load_def)
  have hs: "head_slot ?now = Some 4" by (simp add: head_slot_def)
  note t = peek_frame [OF h1 h2, of ?rc ?h]
  from t [THEN conjunct1] hs have p: "receiver_peek (At 1) ?now = (Inr (Some 4), At 1, ?now)"
    by simp
  from t [THEN conjunct2, THEN conjunct2, THEN conjunct2, THEN mp, OF h3] hs
  have q: "receiver_peek_call ?rc ?h = Inr (Some 4, ?rc, ?h)"
    by simp
  show ?thesis by (intro conjI) (rule h1 h2 p q)+
qed

section \<open>Detached handles\<close>

text \<open>No call takes an owner away: a state that has an owner keeps one.\<close>

lemma use_count_store: "use_count p (store q v h) = use_count p h"
  by (auto simp: use_count_def store_def split: option.splits)

lemma use_count_copy_ptr_any: "0 < use_count p h \<Longrightarrow> 0 < use_count p (copy_ptr q h)"
  by (auto simp: use_count_def copy_ptr_def split: option.splits)

lemma use_count_make_shared:
  "0 < use_count p h \<Longrightarrow> 0 < use_count p (snd (make_shared v h))"
  by (auto simp: use_count_def make_shared_def split: option.splits)

lemma heap_after_use_count:
  assumes "0 < use_count p h"
  shows "0 < use_count p (heap_after c h)"
proof (cases c)
  case (Make_channel b)
  have "0 < use_count p (snd (make_shared (channel_state_ctor b) h))"
    by (rule use_count_make_shared [OF assms])
  then show ?thesis using Make_channel
    by (cases "make_shared (channel_state_ctor b) h") (simp add: heap_after_def channel_ctor_def)
next
  case (Get_sender_of ch)
  then show ?thesis using assms
    by (auto simp: heap_after_def get_sender_def use_count_store use_count_copy_ptr_any
        split: sum.splits)
next
  case (Get_receiver_of ch)
  then show ?thesis using assms
    by (auto simp: heap_after_def get_receiver_def use_count_store
        use_count_copy_ptr_any split: sum.splits)
next
  case (Get_closer_of ch)
  then show ?thesis using assms
    by (auto simp: heap_after_def get_closer_def use_count_copy_ptr_any split: sum.splits)
next
  case (Push_on ch x)
  then show ?thesis using assms
    by (auto simp: heap_after_def channel_push_call_def use_count_store split: sum.splits)
next
  case (Close_on ch)
  then show ?thesis using assms
    by (auto simp: heap_after_def channel_close_call_def use_count_store
        split: sum.splits prod.splits)
next
  case (Avail_of_sender sn)
  then show ?thesis using assms by (simp add: heap_after_def sender_avail_def)
next
  case (Push_through sn x)
  then show ?thesis using assms
    by (auto simp: heap_after_def sender_push_call_def use_count_store split: sum.splits)
next
  case (Close_through sn)
  then show ?thesis using assms
    by (auto simp: heap_after_def sender_close_call_def use_count_store
        split: sum.splits prod.splits)
next
  case (Avail_of_receiver rc)
  then show ?thesis using assms by (simp add: heap_after_def receiver_avail_def)
next
  case (Next_of rc)
  then show ?thesis using assms
    by (auto simp: heap_after_def receiver_next_call_def use_count_store
        split: sum.splits option.splits)
next
  case (Peek_of rc)
  then show ?thesis using assms
    by (auto simp: heap_after_def receiver_peek_call_def use_count_store
        split: sum.splits prod.splits)
next
  case (Share_of rc)
  then show ?thesis using assms by (simp add: heap_after_def receiver_share_def)
next
  case (Close_by cl)
  then show ?thesis using assms
    by (auto simp: heap_after_def channel_closer_close_call_def use_count_store
        split: sum.splits prod.splits)
qed

lemma heap_run_use_count: "0 < use_count p h \<Longrightarrow> 0 < use_count p (heap_run cs h)"
proof (induction cs arbitrary: h)
  case Nil
  then show ?case by simp
next
  case (Cons c cs)
  have "0 < use_count p (heap_after c h)" by (rule heap_after_use_count [OF Cons.prems])
  from Cons.IH [OF this] show ?case by simp
qed

lemma get_sender_use_count:
  assumes "get_sender ch h = Inr (sn, h')"
  shows "use_count (sender_state_ptr sn) h' \<noteq> 0"
proof -
  from assms obtain s where l: "load (channel_state_ptr ch) h = Inr s"
    and r: "sn = \<lparr>sender_state_ptr = channel_state_ptr ch\<rparr>"
      "h' = copy_ptr (channel_state_ptr ch) (store (channel_state_ptr ch) s h)"
    by (auto simp: get_sender_def sender_ctor_def split: sum.splits if_splits)
  from load_store [OF l, of s]
  have "use_count (channel_state_ptr ch)
          (copy_ptr (channel_state_ptr ch) (store (channel_state_ptr ch) s h))
        = Suc (use_count (channel_state_ptr ch) (store (channel_state_ptr ch) s h))"
    by (rule use_count_copy_ptr)
  then show ?thesis using r by simp
qed

lemma get_receiver_use_count:
  assumes "get_receiver ch h = Inr (rc, h')"
  shows "use_count (receiver_state_ptr rc) h' \<noteq> 0"
proof -
  from assms obtain s s' it where l: "load (channel_state_ptr ch) h = Inr s"
    and r: "rc = \<lparr>receiver_state_ptr = channel_state_ptr ch, iterator_v = it\<rparr>"
      "h' = copy_ptr (channel_state_ptr ch) (store (channel_state_ptr ch) s' h)"
    by (auto simp: get_receiver_def split: sum.splits prod.splits)
  from load_store [OF l, of s']
  have "use_count (channel_state_ptr ch)
          (copy_ptr (channel_state_ptr ch) (store (channel_state_ptr ch) s' h))
        = Suc (use_count (channel_state_ptr ch) (store (channel_state_ptr ch) s' h))"
    by (rule use_count_copy_ptr)
  then show ?thesis using r by simp
qed

text \<open>
  C10, as the claim states it, fails twice. Besides \<open>avail\<close>, \<open>share\<close> is defined on a
  default-constructed receiver: it only moves the handle into the wrapper and never reaches
  through the pointer. And a receiver obtained from a channel returns false from \<open>avail\<close>
  while the channel state is alive, once \<open>share\<close> has moved it into the wrapper: the move
  leaves its pointer null, and the state has its owners still.
\<close>

theorem detached_share_counterexample:
  "receiver_op_defined R_share receiver_default
     (\<lparr>cells = Map.empty, next_address = 0\<rparr> :: nat heap) \<and>
   R_share \<noteq> R_avail \<and>
   get_receiver \<lparr>channel_state_ptr = Some 0\<rparr>
       \<lparr>cells = [0 \<mapsto> \<lparr>object = channel_state_ctor False :: nat channel_state, owners = 1\<rparr>],
        next_address = 1\<rparr>
     = Inr (\<lparr>receiver_state_ptr = Some 0, iterator_v = At 0\<rparr>,
            \<lparr>cells = [0 \<mapsto> \<lparr>object = channel_state_ctor False\<lparr>has_receiver_v := True\<rparr>,
                            owners = 2\<rparr>],
             next_address = 1\<rparr>) \<and>
   receiver_share \<lparr>receiver_state_ptr = Some 0, iterator_v = At 0\<rparr>
       \<lparr>cells = [0 \<mapsto> \<lparr>object = channel_state_ctor False\<lparr>has_receiver_v := True\<rparr>
                                 :: nat channel_state,
                       owners = 2\<rparr>],
        next_address = 1\<rparr>
     = Inr (\<lparr>receiver_v = \<lparr>receiver_state_ptr = Some 0, iterator_v = At 0\<rparr>\<rparr>,
            \<lparr>receiver_state_ptr = None, iterator_v = At 0\<rparr>,
            \<lparr>cells = [0 \<mapsto> \<lparr>object = channel_state_ctor False\<lparr>has_receiver_v := True\<rparr>,
                            owners = 2\<rparr>],
             next_address = 1\<rparr>) \<and>
   receiver_avail \<lparr>receiver_state_ptr = None, iterator_v = At 0\<rparr>
       \<lparr>cells = [0 \<mapsto> \<lparr>object = channel_state_ctor False\<lparr>has_receiver_v := True\<rparr>
                                 :: nat channel_state,
                       owners = 2\<rparr>],
        next_address = 1\<rparr>
     = Inr (False, \<lparr>receiver_state_ptr = None, iterator_v = At 0\<rparr>,
            \<lparr>cells = [0 \<mapsto> \<lparr>object = channel_state_ctor False\<lparr>has_receiver_v := True\<rparr>,
                            owners = 2\<rparr>],
             next_address = 1\<rparr>) \<and>
   use_count (Some 0)
       \<lparr>cells = [0 \<mapsto> \<lparr>object = channel_state_ctor False\<lparr>has_receiver_v := True\<rparr>
                                 :: nat channel_state,
                       owners = 2\<rparr>],
        next_address = 1\<rparr>
     = 2"
  by (simp add: receiver_op_defined_def receiver_share_def receiver_avail_def use_count_def
      get_receiver_def load_def store_def copy_ptr_def receiver_ctor_cases
      channel_state_ctor_def Let_def fl_begin_def fl_init_def numeral_2_eq_2)

text \<open>
  C10, amended. On a default-constructed sender or receiver \<open>avail\<close> returns false. On the
  sender that \<open>get_sender\<close> returns and on the receiver that \<open>get_receiver\<close> returns it
  returns true, wherever the receiver's iterator has moved to, after every run of later
  calls on any handles, and in every heap in which the state the handle points to has an
  owner: for as long as the handle has not been moved from. The move in \<open>share\<close> leaves the
  receiver it was called on with a null pointer, on which \<open>avail\<close> returns false, and the
  receiver in the wrapper with the pointer. On every handle \<open>avail\<close> throws nothing and
  leaves the handle and the heap as they were. On a default-constructed sender \<open>avail\<close> is
  the only member function that is defined; on a default-constructed receiver \<open>avail\<close> and
  \<open>share\<close> are, and \<open>next\<close> and the peek are not.
\<close>

theorem detached_handles:
  "sender_avail sender_default h = Inr (False, sender_default, h) \<and>
   receiver_avail receiver_default h = Inr (False, receiver_default, h) \<and>
   (get_sender ch h = Inr (sn, h') \<longrightarrow>
      sender_avail sn (heap_run cs h') = Inr (True, sn, heap_run cs h')) \<and>
   (get_receiver ch h = Inr (rc, h'') \<longrightarrow>
      receiver_avail (rc\<lparr>iterator_v := it\<rparr>) (heap_run cs h'')
        = Inr (True, rc\<lparr>iterator_v := it\<rparr>, heap_run cs h'')) \<and>
   (sender_state_ptr sn0 = Some a \<and> cells h a = Some b \<and> owners b \<noteq> 0 \<longrightarrow>
      sender_avail sn0 h = Inr (True, sn0, h)) \<and>
   (receiver_state_ptr rc0 = Some a \<and> cells h a = Some b \<and> owners b \<noteq> 0 \<longrightarrow>
      receiver_avail rc0 h = Inr (True, rc0, h)) \<and>
   receiver_share rc0 h = Inr (\<lparr>receiver_v = rc0\<rparr>, rc0\<lparr>receiver_state_ptr := None\<rparr>, h) \<and>
   receiver_avail (rc0\<lparr>receiver_state_ptr := None\<rparr>) h
     = Inr (False, rc0\<lparr>receiver_state_ptr := None\<rparr>, h) \<and>
   snd (projr (sender_avail sn0 h)) = (sn0, h) \<and>
   snd (projr (receiver_avail rc0 h)) = (rc0, h) \<and>
   (sender_op_defined op sender_default h \<longleftrightarrow> op = S_avail) \<and>
   (receiver_op_defined rop receiver_default h \<longleftrightarrow> rop = R_avail \<or> rop = R_share)"
proof -
  have c1: "sender_avail sn (heap_run cs h') = Inr (True, sn, heap_run cs h')"
    if "get_sender ch h = Inr (sn, h')"
    using get_sender_use_count [OF that] heap_run_use_count [of "sender_state_ptr sn" h' cs]
    by (simp add: sender_avail_def)
  have c2: "receiver_avail (rc\<lparr>iterator_v := it\<rparr>) (heap_run cs h'')
        = Inr (True, rc\<lparr>iterator_v := it\<rparr>, heap_run cs h'')"
    if "get_receiver ch h = Inr (rc, h'')"
    using get_receiver_use_count [OF that]
      heap_run_use_count [of "receiver_state_ptr rc" h'' cs]
    by (simp add: receiver_avail_def)
  have c3: "sender_op_defined op sender_default h \<longleftrightarrow> op = S_avail"
    by (cases op)
      (simp_all add: sender_op_defined_def sender_default_def sender_avail_def
        sender_push_call_def sender_close_call_def load_def)
  have c4: "receiver_op_defined rop receiver_default h \<longleftrightarrow> rop = R_avail \<or> rop = R_share"
    by (cases rop)
      (simp_all add: receiver_op_defined_def receiver_default_def receiver_avail_def
        receiver_next_call_def receiver_peek_call_def receiver_share_def load_def)
  have c5: "sender_avail sn0 h = Inr (True, sn0, h)"
    if "sender_state_ptr sn0 = Some a \<and> cells h a = Some b \<and> owners b \<noteq> 0"
    using that by (simp add: sender_avail_def use_count_def)
  have c6: "receiver_avail rc0 h = Inr (True, rc0, h)"
    if "receiver_state_ptr rc0 = Some a \<and> cells h a = Some b \<and> owners b \<noteq> 0"
    using that by (simp add: receiver_avail_def use_count_def)
  have c7: "sender_avail sender_default h = Inr (False, sender_default, h) \<and>
      receiver_avail receiver_default h = Inr (False, receiver_default, h) \<and>
      receiver_share rc0 h = Inr (\<lparr>receiver_v = rc0\<rparr>, rc0\<lparr>receiver_state_ptr := None\<rparr>, h) \<and>
      receiver_avail (rc0\<lparr>receiver_state_ptr := None\<rparr>) h
        = Inr (False, rc0\<lparr>receiver_state_ptr := None\<rparr>, h) \<and>
      snd (projr (sender_avail sn0 h)) = (sn0, h) \<and>
      snd (projr (receiver_avail rc0 h)) = (rc0, h)"
    by (simp add: sender_avail_def receiver_avail_def sender_default_def receiver_default_def
        receiver_share_def use_count_def)
  show ?thesis using c1 c2 c3 c4 c5 c6 c7 by blast
qed

theorem detached_handles_witness:
  "get_sender \<lparr>channel_state_ptr = Some 0\<rparr>
       \<lparr>cells = [0 \<mapsto> \<lparr>object = channel_state_ctor False :: nat channel_state, owners = 1\<rparr>],
        next_address = 1\<rparr>
     = Inr (\<lparr>sender_state_ptr = Some 0\<rparr>,
            \<lparr>cells = [0 \<mapsto> \<lparr>object = channel_state_ctor False, owners = 2\<rparr>],
             next_address = 1\<rparr>) \<and>
   sender_avail \<lparr>sender_state_ptr = Some 0\<rparr>
       (heap_run [Push_through \<lparr>sender_state_ptr = Some 0\<rparr> 3,
                  Close_through \<lparr>sender_state_ptr = Some 0\<rparr>]
          \<lparr>cells = [0 \<mapsto> \<lparr>object = channel_state_ctor False :: nat channel_state, owners = 2\<rparr>],
           next_address = 1\<rparr>)
     = Inr (True, \<lparr>sender_state_ptr = Some 0\<rparr>,
            heap_run [Push_through \<lparr>sender_state_ptr = Some 0\<rparr> 3,
                      Close_through \<lparr>sender_state_ptr = Some 0\<rparr>]
              \<lparr>cells = [0 \<mapsto> \<lparr>object = channel_state_ctor False, owners = 2\<rparr>],
               next_address = 1\<rparr>) \<and>
   get_receiver \<lparr>channel_state_ptr = Some 0\<rparr>
       \<lparr>cells = [0 \<mapsto> \<lparr>object = channel_state_ctor False :: nat channel_state, owners = 1\<rparr>],
        next_address = 1\<rparr>
     = Inr (\<lparr>receiver_state_ptr = Some 0, iterator_v = At 0\<rparr>,
            \<lparr>cells = [0 \<mapsto> \<lparr>object = channel_state_ctor False\<lparr>has_receiver_v := True\<rparr>,
                            owners = 2\<rparr>],
             next_address = 1\<rparr>) \<and>
   receiver_avail (\<lparr>receiver_state_ptr = Some 0, iterator_v = At 0\<rparr>\<lparr>iterator_v := At 1\<rparr>)
       (heap_run [Push_on \<lparr>channel_state_ptr = Some 0\<rparr> 3,
                  Next_of \<lparr>receiver_state_ptr = Some 0, iterator_v = At 0\<rparr>]
          \<lparr>cells = [0 \<mapsto> \<lparr>object = channel_state_ctor False\<lparr>has_receiver_v := True\<rparr>
                                    :: nat channel_state,
                          owners = 2\<rparr>],
           next_address = 1\<rparr>)
     = Inr (True, \<lparr>receiver_state_ptr = Some 0, iterator_v = At 0\<rparr>\<lparr>iterator_v := At 1\<rparr>,
            heap_run [Push_on \<lparr>channel_state_ptr = Some 0\<rparr> 3,
                      Next_of \<lparr>receiver_state_ptr = Some 0, iterator_v = At 0\<rparr>]
              \<lparr>cells = [0 \<mapsto> \<lparr>object = channel_state_ctor False\<lparr>has_receiver_v := True\<rparr>,
                              owners = 2\<rparr>],
               next_address = 1\<rparr>) \<and>
   load (Some 0)
       (heap_run [Push_on \<lparr>channel_state_ptr = Some 0\<rparr> 3,
                  Next_of \<lparr>receiver_state_ptr = Some 0, iterator_v = At 0\<rparr>]
          \<lparr>cells = [0 \<mapsto> \<lparr>object = channel_state_ctor False\<lparr>has_receiver_v := True\<rparr>
                                    :: nat channel_state,
                          owners = 2\<rparr>],
           next_address = 1\<rparr>)
     = Inr \<lparr>has_receiver_v = True, is_closed_v = False,
            data = \<lparr>nodes = [(1, Some 3)], allocated = 2\<rparr>, last_it = At 1\<rparr> \<and>
   sender_state_ptr \<lparr>sender_state_ptr = Some 0\<rparr> = Some 0 \<and>
   cells \<lparr>cells = [0 \<mapsto> \<lparr>object = channel_state_ctor False :: nat channel_state, owners = 2\<rparr>],
          next_address = 1\<rparr> 0
     = Some \<lparr>object = channel_state_ctor False, owners = 2\<rparr> \<and>
   owners \<lparr>object = channel_state_ctor False :: nat channel_state, owners = 2\<rparr> \<noteq> 0 \<and>
   sender_avail \<lparr>sender_state_ptr = Some 0\<rparr>
       \<lparr>cells = [0 \<mapsto> \<lparr>object = channel_state_ctor False :: nat channel_state, owners = 2\<rparr>],
        next_address = 1\<rparr>
     = Inr (True, \<lparr>sender_state_ptr = Some 0\<rparr>,
            \<lparr>cells = [0 \<mapsto> \<lparr>object = channel_state_ctor False, owners = 2\<rparr>],
             next_address = 1\<rparr>)"
proof -
  let ?ch = "\<lparr>channel_state_ptr = Some 0\<rparr>"
  let ?open = "channel_state_ctor False :: nat channel_state"
  let ?h = "\<lparr>cells = [0 \<mapsto> \<lparr>object = ?open, owners = 1\<rparr>], next_address = 1\<rparr>"
  let ?sn = "\<lparr>sender_state_ptr = Some 0\<rparr>"
  let ?b = "\<lparr>object = ?open, owners = 2\<rparr>"
  let ?hs = "\<lparr>cells = [0 \<mapsto> ?b], next_address = 1\<rparr>"
  let ?rc = "\<lparr>receiver_state_ptr = Some 0, iterator_v = At 0\<rparr>"
  let ?hr = "\<lparr>cells = [0 \<mapsto> \<lparr>object = ?open\<lparr>has_receiver_v := True\<rparr>, owners = 2\<rparr>],
             next_address = 1\<rparr>"
  let ?cs = "[Push_through ?sn 3, Close_through ?sn] :: nat call list"
  let ?ds = "[Push_on ?ch 3, Next_of ?rc] :: nat call list"
  have h1: "get_sender ?ch ?h = Inr (?sn, ?hs)"
    by (simp add: get_sender_def load_def store_def copy_ptr_def sender_ctor_def
        channel_state_ctor_def Let_def numeral_2_eq_2)
  have h2: "get_receiver ?ch ?h = Inr (?rc, ?hr)"
    by (simp add: get_receiver_def load_def store_def copy_ptr_def receiver_ctor_cases
        channel_state_ctor_def Let_def fl_begin_def fl_init_def numeral_2_eq_2)
  have h3: "sender_state_ptr ?sn = Some 0" and h4: "cells ?hs 0 = Some ?b"
    and h5: "owners ?b \<noteq> 0"
    by simp_all
  have l: "load (Some 0) (heap_run ?ds ?hr)
     = Inr \<lparr>has_receiver_v = True, is_closed_v = False,
            data = \<lparr>nodes = [(1, Some 3)], allocated = 2\<rparr>, last_it = At 1\<rparr>"
    by (simp add: heap_after_def channel_push_call_def receiver_next_call_def load_def store_def
        channel_push_def receiver_next_def wait_pred_def incr_def insert_after_def pop_front_def
        deref_def channel_state_ctor_def Let_def fl_begin_def fl_init_def)
  from detached_handles [of ?h ?ch ?sn ?hs ?cs] h1
  have a: "sender_avail ?sn (heap_run ?cs ?hs) = Inr (True, ?sn, heap_run ?cs ?hs)" by blast
  from detached_handles [of ?h ?ch ?sn ?hs ?ds ?rc ?hr "At 1"] h2
  have b: "receiver_avail (?rc\<lparr>iterator_v := At 1\<rparr>) (heap_run ?ds ?hr)
      = Inr (True, ?rc\<lparr>iterator_v := At 1\<rparr>, heap_run ?ds ?hr)" by blast
  from detached_handles [of ?hs ?ch ?sn ?hs ?cs ?rc ?hr "At 1" ?sn 0 ?b] h3 h4 h5
  have c: "sender_avail ?sn ?hs = Inr (True, ?sn, ?hs)" by blast
  show ?thesis by (intro conjI) (rule h1 a h2 b l h3 h4 h5 c)+
qed

end
